theory Spec2Isabelle
  imports Complex_Main
begin

section \<open>Common data model\<close>

text \<open>
  A JavaScript string is a sequence of UTF-16 code units; a code unit is modelled as a
  natural number, so that \<open>length\<close> counts what \<open>String.length\<close> counts.  Literals are
  written \<open>str ''abc''\<close>.  A JavaScript \<open>number\<close> holding a measure is modelled as a
  \<open>real\<close>; an optional field (\<open>x?: number\<close>) is an \<open>option\<close>, \<open>None\<close> standing for
  \<open>undefined\<close>.

  \<open>MindMapNode\<close> is the interface of \<^verbatim>\<open>interfaces/mindmap-interfaces.ts\<close>.  Object
  references (\<open>parent\<close>, \<open>children\<close>) are addresses into a store of nodes.  The field
  \<open>text\<close> is called \<open>ntext\<close> here, and the optional \<open>x\<close>, \<open>y\<close> of the interface are
  \<open>node_x\<close>, \<open>node_y\<close>.
\<close>

type_synonym jsstring = "nat list"

definition str :: "string \<Rightarrow> jsstring" where
  "str s = map of_char s"

text \<open>The code units that \<open>\s\<close> matches and \<open>String.prototype.trim\<close> strips: white space
  and line terminators (TAB, LF, VT, FF, CR, SP, NBSP, U+1680, U+2000..U+200A, U+2028,
  U+2029, U+202F, U+205F, U+3000, U+FEFF).\<close>

definition is_space :: "nat \<Rightarrow> bool" where
  "is_space c \<longleftrightarrow>
     c \<in> set [9, 10, 11, 12, 13, 32, 160, 5760, 8232, 8233, 8239, 8287, 12288, 65279] \<or>
     (8192 \<le> c \<and> c \<le> 8202)"

definition trim :: "jsstring \<Rightarrow> jsstring" where
  "trim s = rev (dropWhile is_space (rev (dropWhile is_space s)))"

text \<open>\<open>s.includes(sub)\<close>: \<open>sub\<close> occurs in \<open>s\<close> as a contiguous run.\<close>

fun js_includes :: "jsstring \<Rightarrow> jsstring \<Rightarrow> bool" where
  "js_includes [] sub = (sub = [])"
| "js_includes (c # cs) sub = (take (length sub) (c # cs) = sub \<or> js_includes cs sub)"

record NodeDimensions =
  width :: real
  height :: real

record MindMapNode =
  ntext :: jsstring
  level :: nat
  parent :: "nat option"
  children :: "nat list"
  color :: "jsstring option"
  icon :: "jsstring option"
  link :: "jsstring option"
  expanded :: bool
  selected :: "bool option"
  hovered :: "bool option"
  node_x :: "real option"
  node_y :: "real option"
  nodeWidth :: "real option"
  nodeHeight :: "real option"
  subtreeWidth :: "real option"
  subtreeHeight :: "real option"

section \<open>Layout: \<^verbatim>\<open>renderers/layout-calculator.ts\<close>\<close>

text \<open>
  A \<open>d3.HierarchyNode<MindMapNode>\<close>: its \<open>depth\<close>, the wrapped \<open>data\<close>, the layout
  coordinates \<open>x\<close> (vertical centre, here \<open>pos_x\<close>) and \<open>y\<close> (left edge, here \<open>pos_y\<close>),
  and its children (here \<open>hchildren\<close>; d3 leaves the property undefined on a leaf, which
  is the empty list).
\<close>

datatype hnode = HNode (depth: nat) (data: MindMapNode) (pos_x: "real option") (pos_y: "real option") (hchildren: "hnode list")

text \<open>\<open>v || 0\<close> on an optional number: \<open>undefined\<close> and \<open>0\<close> both give \<open>0\<close>.\<close>

definition or0 :: "real option \<Rightarrow> real" where
  "or0 v = (case v of None \<Rightarrow> 0 | Some r \<Rightarrow> r)"

text \<open>\<open>Math.max(...vs)\<close>; the layout only calls it on the non-empty list of a branch
  node's children (on the empty list JavaScript gives \<open>-Infinity\<close>, which no branch reaches).\<close>

fun Math_max :: "real list \<Rightarrow> real" where
  "Math_max [] = 0"
| "Math_max (v # vs) = fold max vs v"

text \<open>The \<open>forEach\<close> loop that adds the children's subtree heights and a gap of 10 after
  every child but the last; \<open>n\<close> is \<open>children.length\<close>.\<close>

fun addHeights :: "nat \<Rightarrow> nat \<Rightarrow> real \<Rightarrow> hnode list \<Rightarrow> real" where
  "addHeights n index totalH [] = totalH"
| "addHeights n index totalH (child # rest) =
     (let total1 = totalH + or0 (subtreeHeight (data child));
          total2 = (if index < n - 1 then total1 + 10 else total1)
      in addHeights n (index + 1) total2 rest)"

text \<open>Pass 1. \<open>root.eachAfter\<close> visits the children of a node before the node itself.\<close>

fun calculateAllSubtreeDimensions :: "(nat \<Rightarrow> jsstring \<Rightarrow> NodeDimensions) \<Rightarrow> hnode \<Rightarrow> hnode" where
  "calculateAllSubtreeDimensions cb (HNode d dat px py cs) =
     (let cs' = map (calculateAllSubtreeDimensions cb) cs;
          dims = cb d (ntext dat);
          dat1 = dat\<lparr>nodeWidth := Some (width dims), nodeHeight := Some (height dims)\<rparr>
      in if cs' = [] then
           HNode d (dat1\<lparr>subtreeWidth := Some (width dims), subtreeHeight := Some (height dims)\<rparr>) px py cs'
         else
           (let maxChildWidth = Math_max (map (\<lambda>c. or0 (subtreeWidth (data c))) cs');
                totalHeight = addHeights (length cs') 0 0 cs'
            in HNode d (dat1\<lparr>subtreeWidth := Some (max (width dims) maxChildWidth),
                              subtreeHeight := Some (max (height dims) totalHeight)\<rparr>) px py cs'))"

text \<open>Pass 2. The local constant \<open>horizontalSpacing\<close> of
  \<open>distributeChildrenVerticalSpace\<close>, as a function of the parent's depth; the second
  \<open>forEach\<close> of that method is \<open>placeChildren\<close>, carrying \<open>currentY\<close>.\<close>

definition horizontalSpacing_at :: "nat \<Rightarrow> real" where
  "horizontalSpacing_at d = (if d = 0 then 80 else 30)"

fun setNodePositionsTopDown :: "(nat \<Rightarrow> jsstring \<Rightarrow> NodeDimensions) \<Rightarrow> hnode \<Rightarrow> real \<Rightarrow> real \<Rightarrow> hnode"
and distributeChildrenVerticalSpace :: "(nat \<Rightarrow> jsstring \<Rightarrow> NodeDimensions) \<Rightarrow> hnode \<Rightarrow> hnode"
and placeChildren :: "(nat \<Rightarrow> jsstring \<Rightarrow> NodeDimensions) \<Rightarrow> real \<Rightarrow> real \<Rightarrow> hnode list \<Rightarrow> hnode list" where
  "setNodePositionsTopDown cb (HNode d dat px py cs) x y =
     (if cs = [] then HNode d dat (Some x) (Some y) cs
      else distributeChildrenVerticalSpace cb (HNode d dat (Some x) (Some y) cs))"
| "distributeChildrenVerticalSpace cb (HNode d dat px py cs) =
     (if cs = [] then HNode d dat px py cs
      else
        (let horizontalSpacing = horizontalSpacing_at d;
             totalChildrenHeight = addHeights (length cs) 0 0 cs;
             currentY = or0 px - totalChildrenHeight / 2;
             childY = or0 py + or0 (nodeWidth dat) + horizontalSpacing
         in HNode d dat px py (placeChildren cb childY currentY cs)))"
| "placeChildren cb childY currentY [] = []"
| "placeChildren cb childY currentY (child # rest) =
     (let childX = currentY + or0 (subtreeHeight (data child)) / 2
      in setNodePositionsTopDown cb child childX childY
         # placeChildren cb childY (currentY + or0 (subtreeHeight (data child)) + 10) rest)"

definition createRecursiveTreeLayout :: "(nat \<Rightarrow> jsstring \<Rightarrow> NodeDimensions) \<Rightarrow> hnode \<Rightarrow> hnode" where
  "createRecursiveTreeLayout cb r =
     setNodePositionsTopDown cb (calculateAllSubtreeDimensions cb r) 100 100"




text \<open>All nodes of a hierarchy, the node itself first.\<close>

fun nodes_of :: "hnode \<Rightarrow> hnode list" where
  "nodes_of (HNode d dat px py cs) = HNode d dat px py cs # concat (map nodes_of cs)"

definition sth :: "hnode \<Rightarrow> real" where
  "sth n = or0 (subtreeHeight (data n))"

definition stw :: "hnode \<Rightarrow> real" where
  "stw n = or0 (subtreeWidth (data n))"

definition top_edge :: "hnode \<Rightarrow> real" where
  "top_edge n = or0 (pos_x n) - sth n / 2"

definition bottom_edge :: "hnode \<Rightarrow> real" where
  "bottom_edge n = or0 (pos_x n) + sth n / 2"

lemma nodes_of_self: "n \<in> set (nodes_of n)"
  by (cases n) simp

lemma nodes_of_iff:
  "m \<in> set (nodes_of n) \<longleftrightarrow> m = n \<or> (\<exists>c\<in>set (hchildren n). m \<in> set (nodes_of c))"
  by (cases n) auto

lemma nodes_of_child: "c \<in> set (hchildren n) \<Longrightarrow> m \<in> set (nodes_of c) \<Longrightarrow> m \<in> set (nodes_of n)"
  by (cases n) auto


lemma nodes_of_trans:
  "n \<in> set (nodes_of t) \<Longrightarrow> m \<in> set (nodes_of n) \<Longrightarrow> m \<in> set (nodes_of t)"
proof (induction t)
  case (HNode d dat px py cs)
  show ?case
  proof (cases "n = HNode d dat px py cs")
    case True
    with HNode.prems show ?thesis by simp
  next
    case False
    with HNode.prems obtain c where "c \<in> set cs" "n \<in> set (nodes_of c)" by auto
    with HNode.IH HNode.prems(2) have "m \<in> set (nodes_of c)" by blast
    with \<open>c \<in> set cs\<close> show ?thesis by auto
  qed
qed

lemma addHeights_gen:
  "i + length cs = n \<Longrightarrow> cs \<noteq> [] \<Longrightarrow>
   addHeights n i acc cs = acc + sum_list (map sth cs) + (real (length cs) - 1) * 10"
proof (induction cs arbitrary: i acc)
  case Nil
  then show ?case by simp
next
  case (Cons c cs)
  show ?case
  proof (cases "cs = []")
    case True
    with Cons.prems show ?thesis by (auto simp: sth_def Let_def)
  next
    case False
    have lt: "i < n - 1" using Cons.prems False by (cases cs) auto
    have "Suc i + length cs = n" using Cons.prems by simp
    from Cons.IH[OF this False, of "acc + or0 (subtreeHeight (data c)) + 10"] lt show ?thesis
      by (simp add: sth_def algebra_simps)
  qed
qed

lemma addHeights_total:
  "cs \<noteq> [] \<Longrightarrow> addHeights (length cs) 0 0 cs = sum_list (map sth cs) + (real (length cs) - 1) * 10"
  using addHeights_gen[of 0 cs "length cs" 0] by simp

lemma Math_max_Max: "vs \<noteq> [] \<Longrightarrow> Math_max vs = Max (set vs)"
proof (cases vs)
  case Nil
  then show "vs \<noteq> [] \<Longrightarrow> ?thesis" by simp
next
  case (Cons v ws)
  have "fold max ws v = Max (set (v # ws))"
    by (rule Max.set_eq_fold[symmetric])
  then show ?thesis using Cons by simp
qed

subsection \<open>Pass 1: subtree dimensions\<close>

definition dims_ok :: "(nat \<Rightarrow> jsstring \<Rightarrow> NodeDimensions) \<Rightarrow> hnode \<Rightarrow> bool" where
  "dims_ok cb n =
     (let dims = cb (depth n) (ntext (data n)); cs = hchildren n
      in nodeWidth (data n) = Some (width dims) \<and>
         nodeHeight (data n) = Some (height dims) \<and>
         (cs = [] \<longrightarrow> subtreeWidth (data n) = Some (width dims) \<and>
                       subtreeHeight (data n) = Some (height dims)) \<and>
         (cs \<noteq> [] \<longrightarrow>
            subtreeWidth (data n) = Some (max (width dims) (Max (set (map stw cs)))) \<and>
            subtreeHeight (data n) =
              Some (max (height dims) (sum_list (map sth cs) + (real (length cs) - 1) * 10))))"

lemma calc_children:
  "hchildren (calculateAllSubtreeDimensions cb n) = map (calculateAllSubtreeDimensions cb) (hchildren n)"
  by (cases n) (simp add: Let_def)

lemma calc_depth: "depth (calculateAllSubtreeDimensions cb n) = depth n"
  by (cases n) (simp add: Let_def)

lemma calc_ntext: "ntext (data (calculateAllSubtreeDimensions cb n)) = ntext (data n)"
  by (cases n) (simp add: Let_def)

lemma calc_root_ok: "dims_ok cb (calculateAllSubtreeDimensions cb n)"
proof (cases n)
  case (HNode d dat px py cs)
  show ?thesis
  proof (cases "cs = []")
    case True
    with HNode show ?thesis by (simp add: dims_ok_def Let_def)
  next
    case False
    let ?cs' = "map (calculateAllSubtreeDimensions cb) cs"
    have ne: "?cs' \<noteq> []" using False by simp
    have mx: "Math_max (map (\<lambda>c. or0 (subtreeWidth (data c))) ?cs') = Max (set (map stw ?cs'))"
      using Math_max_Max[of "map stw ?cs'"] ne by (simp add: stw_def comp_def)
    show ?thesis
      using HNode False addHeights_total[OF ne] mx
      by (simp add: dims_ok_def Let_def image_image)
  qed
qed

lemma calc_all_ok:
  "m \<in> set (nodes_of (calculateAllSubtreeDimensions cb n)) \<Longrightarrow> dims_ok cb m"
proof (induction n arbitrary: m)
  case (HNode d dat px py cs)
  let ?r = "calculateAllSubtreeDimensions cb (HNode d dat px py cs)"
  from HNode.prems have "m = ?r \<or> (\<exists>c\<in>set (hchildren ?r). m \<in> set (nodes_of c))"
    using nodes_of_iff[of m ?r] by blast
  then show ?case
  proof
    assume "m = ?r"
    then show ?thesis by (simp only: calc_root_ok)
  next
    assume "\<exists>c\<in>set (hchildren ?r). m \<in> set (nodes_of c)"
    then obtain c where c: "c \<in> set cs" "m \<in> set (nodes_of (calculateAllSubtreeDimensions cb c))"
      unfolding calc_children by auto
    then show ?thesis using HNode.IH by blast
  qed
qed


subsection \<open>Pass 2: positions\<close>

lemma setPos_data: "data (setNodePositionsTopDown cb n x0 y0) = data n"
  by (cases n) (simp add: Let_def)

lemma setPos_depth: "depth (setNodePositionsTopDown cb n x0 y0) = depth n"
  by (cases n) (simp add: Let_def)

lemma setPos_pos_x: "pos_x (setNodePositionsTopDown cb n x0 y0) = Some x0"
  by (cases n) (simp add: Let_def)

lemma setPos_pos_y: "pos_y (setNodePositionsTopDown cb n x0 y0) = Some y0"
  by (cases n) (simp add: Let_def)

lemma setPos_sth: "sth (setNodePositionsTopDown cb n x0 y0) = sth n"
  by (simp add: sth_def setPos_data)

lemma setPos_children:
  "hchildren (setNodePositionsTopDown cb n x0 y0) =
     placeChildren cb (y0 + or0 (nodeWidth (data n)) + horizontalSpacing_at (depth n))
       (x0 - addHeights (length (hchildren n)) 0 0 (hchildren n) / 2) (hchildren n)"
  by (cases n) (simp add: Let_def or0_def)

lemma placeChildren_length: "length (placeChildren cb cy cur cs) = length cs"
  by (induction cs arbitrary: cur) (simp_all add: Let_def)

definition offset_before :: "hnode list \<Rightarrow> nat \<Rightarrow> real" where
  "offset_before cs i = sum_list (map (\<lambda>c. sth c + 10) (take i cs))"

lemma placeChildren_nth:
  "i < length cs \<Longrightarrow>
   placeChildren cb cy cur cs ! i =
     setNodePositionsTopDown cb (cs ! i) (cur + offset_before cs i + sth (cs ! i) / 2) cy"
proof (induction cs arbitrary: cur i)
  case Nil
  then show ?case by simp
next
  case (Cons c cs)
  show ?case
  proof (cases i)
    case 0
    then show ?thesis by (simp add: Let_def offset_before_def sth_def)
  next
    case (Suc k)
    then have "k < length cs" using Cons.prems by simp
    from Cons.IH[OF this, of "cur + or0 (subtreeHeight (data c)) + 10"] Suc
    show ?thesis by (simp add: Let_def offset_before_def sth_def algebra_simps)
  qed
qed

lemma placed_top_edge:
  "i < length cs \<Longrightarrow> top_edge (placeChildren cb cy cur cs ! i) = cur + offset_before cs i"
  by (simp add: placeChildren_nth top_edge_def setPos_pos_x setPos_sth or0_def)

lemma placed_sth:
  "i < length cs \<Longrightarrow> sth (placeChildren cb cy cur cs ! i) = sth (cs ! i)"
  by (simp add: placeChildren_nth setPos_sth)

lemma placed_pos_y:
  "c \<in> set (placeChildren cb cy cur cs) \<Longrightarrow> pos_y c = Some cy"
  by (auto simp: in_set_conv_nth placeChildren_length placeChildren_nth setPos_pos_y)

lemma placed_map_sth: "map sth (placeChildren cb cy cur cs) = map sth cs"
  by (rule nth_equalityI) (simp_all add: placeChildren_length placed_sth)

lemma offset_before_Suc:
  "i < length cs \<Longrightarrow> offset_before cs (Suc i) = offset_before cs i + sth (cs ! i) + 10"
  by (simp add: offset_before_def take_Suc_conv_app_nth)

lemma offset_before_mono:
  assumes "\<forall>c\<in>set cs. 0 \<le> sth c" "i < j" "j \<le> length cs"
  shows "offset_before cs i + sth (cs ! i) + 10 \<le> offset_before cs j"
  using assms(2,3)
proof (induction j)
  case 0
  then show ?case by simp
next
  case (Suc j)
  have nn: "0 \<le> sth (cs ! j)" using assms(1) Suc.prems by simp
  show ?case
  proof (cases "i = j")
    case True
    then show ?thesis using Suc.prems by (simp add: offset_before_Suc)
  next
    case False
    then have "i < j" "j \<le> length cs" using Suc.prems by simp_all
    from Suc.IH[OF this] nn Suc.prems show ?thesis by (simp add: offset_before_Suc)
  qed
qed

text \<open>Every node reached by the position pass is the result of one call of
  \<open>setNodePositionsTopDown\<close> on the corresponding input node.\<close>

lemma setPos_nodes:
  "m \<in> set (nodes_of (setNodePositionsTopDown cb n x0 y0)) \<Longrightarrow>
   \<exists>n' x1 y1. n' \<in> set (nodes_of n) \<and> m = setNodePositionsTopDown cb n' x1 y1"
proof (induction n arbitrary: m x0 y0)
  case (HNode d dat px py cs)
  let ?n = "HNode d dat px py cs"
  let ?r = "setNodePositionsTopDown cb ?n x0 y0"
  from HNode.prems have "m = ?r \<or> (\<exists>c\<in>set (hchildren ?r). m \<in> set (nodes_of c))"
    using nodes_of_iff[of m ?r] by blast
  then show ?case
  proof
    assume "m = ?r"
    then show ?thesis using nodes_of_self[of ?n] by blast
  next
    assume "\<exists>c\<in>set (hchildren ?r). m \<in> set (nodes_of c)"
    then obtain c where c: "c \<in> set (hchildren ?r)" "m \<in> set (nodes_of c)" by blast
    from c(1) obtain i cy cur where i: "i < length cs" "c = placeChildren cb cy cur cs ! i"
      unfolding setPos_children by (auto simp: in_set_conv_nth placeChildren_length)
    then have "c = setNodePositionsTopDown cb (cs ! i) (cur + offset_before cs i + sth (cs ! i) / 2) cy"
      by (simp add: placeChildren_nth)
    with c(2) HNode.IH[of "cs ! i" m] i(1)
    obtain n' x1 y1 where "n' \<in> set (nodes_of (cs ! i))" "m = setNodePositionsTopDown cb n' x1 y1"
      by (metis nth_mem)
    then show ?thesis using i(1) nodes_of_child[of "cs ! i" ?n n'] by (metis hnode.sel(5) nth_mem)
  qed
qed


lemma offset_before_sum:
  "i \<le> length cs \<Longrightarrow> offset_before cs i = sum_list (map sth (take i cs)) + real i * 10"
proof (induction i)
  case 0
  then show ?case by (simp add: offset_before_def)
next
  case (Suc i)
  then show ?case
    by (simp add: offset_before_Suc take_Suc_conv_app_nth algebra_simps)
qed

definition totalChildrenHeight :: "hnode \<Rightarrow> real" where
  "totalChildrenHeight p =
     sum_list (map sth (hchildren p)) + (real (length (hchildren p)) - 1) * 10"

lemma centre_arith:
  fixes b :: real
  shows "b = t \<Longrightarrow> t = x - (S + (n - 1) * 10) / 2 + o1 + s1 \<Longrightarrow> o1 + s1 = O' - 10 \<Longrightarrow>
         O' = S + n * 10 \<Longrightarrow> b = x + (S + (n - 1) * 10) / 2"
  by (simp add: field_simps)

lemma setPos_facts:
  fixes cb n x1 y1
  assumes ne: "hchildren n \<noteq> []"
  defines "p \<equiv> setNodePositionsTopDown cb n x1 y1"
  shows "\<forall>c\<in>set (hchildren p).
            pos_y c = Some (or0 (pos_y p) + or0 (nodeWidth (data p)) + horizontalSpacing_at (depth p))"
    and "pos_x (hd (hchildren p)) =
            Some (or0 (pos_x p) - totalChildrenHeight p / 2 + sth (hd (hchildren p)) / 2)"
    and "\<forall>i. Suc i < length (hchildren p) \<longrightarrow>
            top_edge (hchildren p ! Suc i) = top_edge (hchildren p ! i) + sth (hchildren p ! i) + 10"
    and "bottom_edge (last (hchildren p)) = or0 (pos_x p) + totalChildrenHeight p / 2"
proof -
  let ?cs = "hchildren n"
  let ?cy = "y1 + or0 (nodeWidth (data n)) + horizontalSpacing_at (depth n)"
  let ?cur = "x1 - addHeights (length ?cs) 0 0 ?cs / 2"
  have ch: "hchildren p = placeChildren cb ?cy ?cur ?cs"
    unfolding p_def by (rule setPos_children)
  have len: "length (hchildren p) = length ?cs" by (simp add: ch placeChildren_length)
  have tot: "totalChildrenHeight p = addHeights (length ?cs) 0 0 ?cs"
    by (simp add: totalChildrenHeight_def ch placed_map_sth placeChildren_length addHeights_total[OF ne])
  have px: "or0 (pos_x p) = x1" and py: "or0 (pos_y p) = y1"
    by (simp_all add: p_def setPos_pos_x setPos_pos_y or0_def)
  show "\<forall>c\<in>set (hchildren p).
            pos_y c = Some (or0 (pos_y p) + or0 (nodeWidth (data p)) + horizontalSpacing_at (depth p))"
    using placed_pos_y[of _ cb ?cy ?cur ?cs] py
    by (simp add: ch[symmetric]) (simp add: p_def setPos_data setPos_depth)
  have pos: "0 < length ?cs" using ne by simp
  have pne: "hchildren p \<noteq> []" using ne len by (metis length_0_conv)
  have "hd (hchildren p) = hchildren p ! 0" by (rule hd_conv_nth[OF pne])
  then have hd_eq: "hd (hchildren p) =
      setNodePositionsTopDown cb (?cs ! 0) (?cur + offset_before ?cs 0 + sth (?cs ! 0) / 2) ?cy"
    using placeChildren_nth[OF pos] ch by simp
  show "pos_x (hd (hchildren p)) =
            Some (or0 (pos_x p) - totalChildrenHeight p / 2 + sth (hd (hchildren p)) / 2)"
    by (simp add: hd_eq setPos_pos_x setPos_sth px tot offset_before_def)
  show "\<forall>i. Suc i < length (hchildren p) \<longrightarrow>
            top_edge (hchildren p ! Suc i) = top_edge (hchildren p ! i) + sth (hchildren p ! i) + 10"
    by (simp add: ch placeChildren_length placed_top_edge placed_sth offset_before_Suc)
  have lastn: "last (hchildren p) = placeChildren cb ?cy ?cur ?cs ! (length ?cs - 1)"
    using last_conv_nth[OF pne] len ch by simp
  have lt: "length ?cs - 1 < length ?cs" using ne by simp
  have b1: "bottom_edge (last (hchildren p)) = top_edge (last (hchildren p)) + sth (last (hchildren p))"
    by (simp add: bottom_edge_def top_edge_def)
  have b2: "top_edge (last (hchildren p)) + sth (last (hchildren p)) =
            ?cur + offset_before ?cs (length ?cs - 1) + sth (?cs ! (length ?cs - 1))"
    by (simp only: lastn placed_top_edge[OF lt] placed_sth[OF lt])
  have b3: "offset_before ?cs (length ?cs - 1) + sth (?cs ! (length ?cs - 1)) =
             offset_before ?cs (Suc (length ?cs - 1)) - 10"
    using lt by (simp add: offset_before_Suc)
  have b4: "Suc (length ?cs - 1) = length ?cs" using ne by simp
  have b5: "offset_before ?cs (length ?cs) = sum_list (map sth ?cs) + real (length ?cs) * 10"
    by (simp add: offset_before_sum)
  show "bottom_edge (last (hchildren p)) = or0 (pos_x p) + totalChildrenHeight p / 2"
    using centre_arith[OF b1 b2[unfolded addHeights_total[OF ne]] b3[unfolded b4] b5]
    by (simp only: px tot addHeights_total[OF ne])
qed


subsection \<open>Frame\<close>

fun clearLayout :: "hnode \<Rightarrow> hnode" where
  "clearLayout (HNode d dat px py cs) =
     HNode d (dat\<lparr>nodeWidth := None, nodeHeight := None, subtreeWidth := None, subtreeHeight := None\<rparr>)
       None None (map clearLayout cs)"

definition frame_fields ::
  "hnode \<Rightarrow> jsstring \<times> nat \<times> nat option \<times> nat list \<times> bool \<times> bool option \<times> bool option \<times> nat \<times> nat" where
  "frame_fields n =
     (ntext (data n), level (data n), parent (data n), children (data n), expanded (data n),
      selected (data n), hovered (data n), depth n, length (hchildren n))"

lemma clearLayout_calc: "clearLayout (calculateAllSubtreeDimensions cb n) = clearLayout n"
  by (induction n) (simp add: Let_def)

lemma clearLayout_setPos: "clearLayout (setNodePositionsTopDown cb n x0 y0) = clearLayout n"
proof (induction n arbitrary: x0 y0)
  case (HNode d dat px py cs)
  have "map clearLayout (placeChildren cb cy cur cs) = map clearLayout cs" for cy cur
    by (rule nth_equalityI)
       (simp_all add: placeChildren_length placeChildren_nth HNode.IH)
  then show ?case by (simp add: Let_def)
qed

lemma frame_fields_clear: "frame_fields (clearLayout n) = frame_fields n"
  by (cases n) (simp add: frame_fields_def)

lemma nodes_of_clear: "nodes_of (clearLayout n) = map clearLayout (nodes_of n)"
  by (induction n) (simp add: map_concat comp_def cong: map_cong)

lemma frame_fields_nodes:
  "map frame_fields (nodes_of (clearLayout n)) = map frame_fields (nodes_of n)"
  by (simp add: nodes_of_clear comp_def frame_fields_clear)

lemma clear_eq_frame:
  "clearLayout a = clearLayout b \<Longrightarrow> map frame_fields (nodes_of a) = map frame_fields (nodes_of b)"
  using frame_fields_nodes[of a] frame_fields_nodes[of b] by simp



section \<open>Inline editing: \<open>NodeEditor\<close>\<close>

text \<open>
  \<open>VALIDATION_CONSTANTS\<close> comes from \<^verbatim>\<open>constants/mindmap-constants\<close>, which is not part of the
  sources at hand; its two values are parameters of the model.  An \<open>EditElement\<close> is the
  editable DOM element, reduced to its \<open>textContent\<close> (\<open>None\<close> for \<open>null\<close>) and its
  \<open>contentEditable\<close> flag; elements and hierarchy nodes are referred to by number.  The
  \<open>NodeEditor\<close> record holds the editor's own fields, the text of every node
  (\<open>node.data.text\<close>), and a log of what the editor called: validation errors shown, and the
  callbacks \<open>onBeforeTextChange\<close> (which takes the undo snapshot), \<open>onTextChanged\<close> (which
  persists the text) and \<open>onCanvasInteractionChanged\<close>.
\<close>

record VALIDATION_CONSTANTS =
  MAX_TEXT_LENGTH :: nat
  INVALID_CHARACTERS :: "jsstring list"

datatype message = NodeTextEmpty | SaveFailed

record EditElement =
  textContent :: "jsstring option"
  contentEditable :: bool

record EditingState =
  isEditing :: bool
  currentNode :: "nat option"
  originalText :: jsstring
  editElement :: "nat option"

record NodeEditor =
  editingState :: EditingState
  canvasInteractionEnabled :: bool
  nodeText :: "nat \<Rightarrow> jsstring"
  elements :: "nat \<Rightarrow> EditElement"
  validationErrors :: "message list"
  beforeTextChange :: "nat list"
  textChanged :: "(nat \<times> jsstring) list"
  canvasInteractionChanged :: "bool list"

definition validateText :: "VALIDATION_CONSTANTS \<Rightarrow> jsstring \<Rightarrow> bool" where
  "validateText vc t =
     (if t = [] \<or> length (trim t) = 0 then False
      else if length t > MAX_TEXT_LENGTH vc then False
      else if list_ex (\<lambda>c. js_includes t c) (INVALID_CHARACTERS vc) then False
      else True)"

definition setCanvasInteraction :: "bool \<Rightarrow> NodeEditor \<Rightarrow> NodeEditor" where
  "setCanvasInteraction enabled ed =
     ed\<lparr>canvasInteractionEnabled := enabled,
        canvasInteractionChanged := canvasInteractionChanged ed @ [enabled]\<rparr>"

definition exitEditMode :: "NodeEditor \<Rightarrow> NodeEditor" where
  "exitEditMode ed =
     (if \<not> isEditing (editingState ed) then ed
      else
        (let ed1 = setCanvasInteraction True ed;
             ed2 = (case editElement (editingState ed) of
                      None \<Rightarrow> ed1
                    | Some e \<Rightarrow> ed1\<lparr>elements := (elements ed1)(e := (elements ed1 e)\<lparr>contentEditable := False\<rparr>)\<rparr>)
         in ed2\<lparr>editingState := \<lparr>isEditing = False, currentNode = None, originalText = [], editElement = None\<rparr>\<rparr>))"

definition showValidationError :: "message \<Rightarrow> NodeEditor \<Rightarrow> NodeEditor" where
  "showValidationError m ed =
     (let ed1 = ed\<lparr>validationErrors := validationErrors ed @ [m]\<rparr>
      in if isEditing (editingState ed1) then exitEditMode ed1 else ed1)"

definition saveText :: "VALIDATION_CONSTANTS \<Rightarrow> NodeEditor \<Rightarrow> NodeEditor" where
  "saveText vc ed =
     (case (isEditing (editingState ed), currentNode (editingState ed), editElement (editingState ed)) of
        (True, Some node, Some e) \<Rightarrow>
          (let newText = (case textContent (elements ed e) of None \<Rightarrow> [] | Some t \<Rightarrow> trim t)
           in if \<not> validateText vc newText then showValidationError NodeTextEmpty ed
              else if newText = originalText (editingState ed) then exitEditMode ed
              else
                (let ed1 = ed\<lparr>beforeTextChange := beforeTextChange ed @ [node]\<rparr>;
                     ed2 = ed1\<lparr>nodeText := (nodeText ed1)(node := newText)\<rparr>;
                     ed3 = ed2\<lparr>textChanged := textChanged ed2 @ [(node, newText)]\<rparr>
                 in exitEditMode ed3))
      | _ \<Rightarrow> ed)"

text \<open>The text \<open>saveText\<close> is about to commit: \<open>editElement.textContent?.trim() || ''\<close>.\<close>

definition committedText :: "NodeEditor \<Rightarrow> jsstring" where
  "committedText ed =
     (case editElement (editingState ed) of
        None \<Rightarrow> []
      | Some e \<Rightarrow> (case textContent (elements ed e) of None \<Rightarrow> [] | Some t \<Rightarrow> trim t))"


section \<open>Click handling: \<open>MouseInteraction\<close>\<close>

text \<open>
  The click listener of every node is the one \<open>MouseInteraction.attachNodeClickHandlers\<close>
  attaches, and it calls \<open>MouseInteraction.handleNodeClick\<close>; the \<open>MouseInteraction\<close> is built by
  \<open>InteractionManager\<close>, which \<open>RendererCoordinator\<close> builds.

  Hierarchy nodes are referred to by number (\<open>===\<close> on nodes is equality of numbers);
  \<open>node_selected\<close> and \<open>node_hovered\<close> are \<open>node.data.selected\<close> and \<open>node.data.hovered\<close>.
  \<open>doubleClickTimeout\<close> is \<open>options.doubleClickTimeout\<close>, which the constructor sets to 300.
  The callbacks \<open>isEditing\<close> and \<open>getEditingNode\<close> read the editing state that
  \<open>InteractionManager\<close> keeps: they are the fields \<open>cb_isEditing\<close> and \<open>cb_getEditingNode\<close>, which
  no function here writes. The calls to the callbacks \<open>onNodeSelect\<close> and \<open>onNodeDoubleClick\<close>
  are logged in \<open>ui_events\<close>. The changes to the document (the classes of the rectangles, the
  buttons of a node, \<open>stopPropagation\<close>) are left out.

  \<open>Date.now()\<close> is the argument \<open>currentTime\<close>, in milliseconds. \<open>setTimeout\<close> adds a timer to
  \<open>pending_timers\<close> and returns its identifier (a positive number, so that it is truthy); the
  only callback that \<open>handleNodeClick\<close> registers is the one that closes the double-click
  window, here \<open>windowTimerFired\<close>. \<open>runDueTimers now\<close> is the event loop between two events: it
  runs, in the order they were set, the callbacks of the timers due at \<open>now\<close> or before; \<open>click\<close>
  is a click event delivered at time \<open>now\<close>. \<open>isDoubleClick\<close> is the constant of that name in
  \<open>handleNodeClick\<close>. \<open>timers_wf\<close> holds of the states the class reaches: the only timer that can
  be pending is the one \<open>clickTimeout\<close> names.
\<close>

datatype ui_event = NodeSelect nat | NodeDoubleClick nat

record click_timer =
  timer_id :: nat
  timer_due :: int

record MouseInteraction =
  selectedNode :: "nat option"
  hoveredNode :: "nat option"
  clickTimeout :: "nat option"
  lastClickTime :: int
  clickNode :: "nat option"
  doubleClickTimeout :: int
  cb_isEditing :: bool
  cb_getEditingNode :: "nat option"
  node_selected :: "nat \<Rightarrow> bool option"
  node_hovered :: "nat \<Rightarrow> bool option"
  pending_timers :: "click_timer list"
  next_timer_id :: nat
  ui_events :: "ui_event list"

definition new_MouseInteraction :: MouseInteraction where
  "new_MouseInteraction = \<lparr>selectedNode = None, hoveredNode = None, clickTimeout = None,
     lastClickTime = 0, clickNode = None, doubleClickTimeout = 300, cb_isEditing = False,
     cb_getEditingNode = None, node_selected = (\<lambda>_. None), node_hovered = (\<lambda>_. None),
     pending_timers = [], next_timer_id = 1, ui_events = []\<rparr>"

definition clearTimeout :: "nat \<Rightarrow> MouseInteraction \<Rightarrow> MouseInteraction" where
  "clearTimeout tid h = h\<lparr>pending_timers := filter (\<lambda>tm. timer_id tm \<noteq> tid) (pending_timers h)\<rparr>"

definition clearNodeHoverState :: "nat \<Rightarrow> MouseInteraction \<Rightarrow> MouseInteraction" where
  "clearNodeHoverState node h =
     (let h1 = h\<lparr>node_hovered := (node_hovered h)(node := Some False)\<rparr>
      in if hoveredNode h1 = Some node then h1\<lparr>hoveredNode := None\<rparr> else h1)"

definition performNodeSelection :: "nat \<Rightarrow> MouseInteraction \<Rightarrow> MouseInteraction" where
  "performNodeSelection node h =
     (if cb_isEditing h \<and> cb_getEditingNode h = Some node then h
      else
        (let h1 = (case selectedNode h of
                     Some s \<Rightarrow> if s \<noteq> node then h\<lparr>node_selected := (node_selected h)(s := Some False)\<rparr> else h
                   | None \<Rightarrow> h);
             h2 = (if node_hovered h1 node = Some True then clearNodeHoverState node h1 else h1);
             h3 = h2\<lparr>node_selected := (node_selected h2)(node := Some True), selectedNode := Some node\<rparr>
         in h3\<lparr>ui_events := ui_events h3 @ [NodeSelect node]\<rparr>))"

definition isDoubleClick :: "int \<Rightarrow> nat \<Rightarrow> MouseInteraction \<Rightarrow> bool" where
  "isDoubleClick currentTime node h \<longleftrightarrow>
     currentTime - lastClickTime h < doubleClickTimeout h \<and> clickNode h = Some node"

definition handleNodeClick :: "int \<Rightarrow> nat \<Rightarrow> MouseInteraction \<Rightarrow> MouseInteraction" where
  "handleNodeClick currentTime node h =
     (if isDoubleClick currentTime node h then
        (let h1 = h\<lparr>lastClickTime := 0, clickNode := None\<rparr>;
             h2 = (case clickTimeout h1 of
                     Some tid \<Rightarrow> (clearTimeout tid h1)\<lparr>clickTimeout := None\<rparr>
                   | None \<Rightarrow> h1)
         in h2\<lparr>ui_events := ui_events h2 @ [NodeDoubleClick node]\<rparr>)
      else
        (let h1 = h\<lparr>lastClickTime := currentTime, clickNode := Some node\<rparr>;
             h2 = (case clickTimeout h1 of Some tid \<Rightarrow> clearTimeout tid h1 | None \<Rightarrow> h1);
             h3 = performNodeSelection node h2;
             tid = next_timer_id h3
         in h3\<lparr>clickTimeout := Some tid,
               pending_timers := pending_timers h3 @
                  [\<lparr>timer_id = tid, timer_due = currentTime + doubleClickTimeout h3\<rparr>],
               next_timer_id := Suc tid\<rparr>))"

definition windowTimerFired :: "click_timer \<Rightarrow> MouseInteraction \<Rightarrow> MouseInteraction" where
  "windowTimerFired tm h =
     (clearTimeout (timer_id tm) h)\<lparr>lastClickTime := 0, clickNode := None, clickTimeout := None\<rparr>"

definition runDueTimers :: "int \<Rightarrow> MouseInteraction \<Rightarrow> MouseInteraction" where
  "runDueTimers now h =
     fold (\<lambda>tm h'. if timer_due tm \<le> now \<and> tm \<in> set (pending_timers h') then windowTimerFired tm h' else h')
       (pending_timers h) h"

definition click :: "int \<Rightarrow> nat \<Rightarrow> MouseInteraction \<Rightarrow> MouseInteraction" where
  "click now node h = handleNodeClick now node (runDueTimers now h)"

definition timers_wf :: "MouseInteraction \<Rightarrow> bool" where
  "timers_wf h =
     (case pending_timers h of
        [] \<Rightarrow> True
      | [tm] \<Rightarrow> clickTimeout h = Some (timer_id tm)
      | _ \<Rightarrow> False)"

lemmas click_defs = click_def runDueTimers_def handleNodeClick_def windowTimerFired_def
  performNodeSelection_def clearNodeHoverState_def clearTimeout_def new_MouseInteraction_def
  isDoubleClick_def timers_wf_def Let_def

lemma runDueTimers_cases:
  assumes "timers_wf h"
  shows "runDueTimers now h = h \<or>
         (\<exists>tm. pending_timers h = [tm] \<and> timer_due tm \<le> now \<and>
               runDueTimers now h = h\<lparr>pending_timers := [], lastClickTime := 0, clickNode := None,
                                       clickTimeout := None\<rparr>)"
proof (cases "pending_timers h")
  case Nil
  then show ?thesis by (simp add: runDueTimers_def)
next
  case (Cons tm rest)
  then have p: "pending_timers h = [tm]" using assms
    by (cases rest) (simp_all add: timers_wf_def)
  show ?thesis
  proof (cases "timer_due tm \<le> now")
    case True
    then show ?thesis using p by (simp add: runDueTimers_def windowTimerFired_def clearTimeout_def)
  next
    case False
    then show ?thesis using p by (simp add: runDueTimers_def)
  qed
qed

lemma single_click:
  assumes "\<not> isDoubleClick t m h"
  shows "ui_events (handleNodeClick t m h) = ui_events h @ (if cb_isEditing h \<and> cb_getEditingNode h = Some m then [] else [NodeSelect m])"
    and "lastClickTime (handleNodeClick t m h) = t"
    and "clickNode (handleNodeClick t m h) = Some m"
    and "\<not> (cb_isEditing h \<and> cb_getEditingNode h = Some m) \<Longrightarrow>
         selectedNode (handleNodeClick t m h) = Some m \<and>
         node_selected (handleNodeClick t m h) m = Some True"
    and "timers_wf h \<Longrightarrow>
         pending_timers (handleNodeClick t m h) =
           [\<lparr>timer_id = next_timer_id h, timer_due = t + doubleClickTimeout h\<rparr>] \<and>
         clickTimeout (handleNodeClick t m h) = Some (next_timer_id h)"
    and "doubleClickTimeout (handleNodeClick t m h) = doubleClickTimeout h"
    and "cb_isEditing (handleNodeClick t m h) = cb_isEditing h"
    and "cb_getEditingNode (handleNodeClick t m h) = cb_getEditingNode h"
proof -
  show "ui_events (handleNodeClick t m h) = ui_events h @ (if cb_isEditing h \<and> cb_getEditingNode h = Some m then [] else [NodeSelect m])"
    using assms
    by (simp add: handleNodeClick_def performNodeSelection_def clearNodeHoverState_def
        clearTimeout_def Let_def split: option.splits)
  show "lastClickTime (handleNodeClick t m h) = t"
    using assms
    by (simp add: handleNodeClick_def performNodeSelection_def clearNodeHoverState_def
        clearTimeout_def Let_def split: option.splits)
  show "clickNode (handleNodeClick t m h) = Some m"
    using assms
    by (simp add: handleNodeClick_def performNodeSelection_def clearNodeHoverState_def
        clearTimeout_def Let_def split: option.splits)
  show "\<not> (cb_isEditing h \<and> cb_getEditingNode h = Some m) \<Longrightarrow>
         selectedNode (handleNodeClick t m h) = Some m \<and>
         node_selected (handleNodeClick t m h) m = Some True"
    using assms
    by (auto simp add: handleNodeClick_def performNodeSelection_def clearNodeHoverState_def
        clearTimeout_def Let_def split: option.splits)
  show "timers_wf h \<Longrightarrow>
         pending_timers (handleNodeClick t m h) =
           [\<lparr>timer_id = next_timer_id h, timer_due = t + doubleClickTimeout h\<rparr>] \<and>
         clickTimeout (handleNodeClick t m h) = Some (next_timer_id h)"
    using assms
    by (simp add: handleNodeClick_def performNodeSelection_def clearNodeHoverState_def
        clearTimeout_def timers_wf_def Let_def split: option.splits list.splits)
  show "doubleClickTimeout (handleNodeClick t m h) = doubleClickTimeout h"
    using assms
    by (simp add: handleNodeClick_def performNodeSelection_def clearNodeHoverState_def
        clearTimeout_def Let_def split: option.splits)
  show "cb_isEditing (handleNodeClick t m h) = cb_isEditing h"
    using assms
    by (simp add: handleNodeClick_def performNodeSelection_def clearNodeHoverState_def
        clearTimeout_def Let_def split: option.splits)
  show "cb_getEditingNode (handleNodeClick t m h) = cb_getEditingNode h"
    using assms
    by (simp add: handleNodeClick_def performNodeSelection_def clearNodeHoverState_def
        clearTimeout_def Let_def split: option.splits)
qed

lemma double_click:
  assumes "isDoubleClick t m h" and "timers_wf h"
  shows "ui_events (handleNodeClick t m h) = ui_events h @ [NodeDoubleClick m]"
    and "lastClickTime (handleNodeClick t m h) = 0"
    and "clickNode (handleNodeClick t m h) = None"
    and "selectedNode (handleNodeClick t m h) = selectedNode h"
    and "node_selected (handleNodeClick t m h) = node_selected h"
    and "pending_timers (handleNodeClick t m h) = []"
    and "clickTimeout (handleNodeClick t m h) = None"
  using assms
  by (simp_all add: handleNodeClick_def clearTimeout_def timers_wf_def Let_def
      split: option.splits list.splits)

lemma runDueTimers_frame:
  assumes "timers_wf h"
  shows "ui_events (runDueTimers now h) = ui_events h"
    and "cb_isEditing (runDueTimers now h) = cb_isEditing h"
    and "cb_getEditingNode (runDueTimers now h) = cb_getEditingNode h"
    and "doubleClickTimeout (runDueTimers now h) = doubleClickTimeout h"
    and "selectedNode (runDueTimers now h) = selectedNode h"
    and "node_selected (runDueTimers now h) = node_selected h"
    and "timers_wf (runDueTimers now h)"
    and "clickNode (runDueTimers now h) = clickNode h \<or> clickNode (runDueTimers now h) = None"
proof -
  from runDueTimers_cases[OF assms, of now]
  consider "runDueTimers now h = h"
    | "runDueTimers now h = h\<lparr>pending_timers := [], lastClickTime := 0, clickNode := None,
                                       clickTimeout := None\<rparr>"
    by blast
  then have "(ui_events (runDueTimers now h) = ui_events h \<and>
     cb_isEditing (runDueTimers now h) = cb_isEditing h \<and>
     cb_getEditingNode (runDueTimers now h) = cb_getEditingNode h \<and>
     doubleClickTimeout (runDueTimers now h) = doubleClickTimeout h \<and>
     selectedNode (runDueTimers now h) = selectedNode h \<and>
     node_selected (runDueTimers now h) = node_selected h) \<and>
     timers_wf (runDueTimers now h) \<and>
     (clickNode (runDueTimers now h) = clickNode h \<or> clickNode (runDueTimers now h) = None)"
  proof cases
    case 1
    show ?thesis unfolding 1 using assms by simp
  next
    case 2
    show ?thesis unfolding 2 by (simp add: timers_wf_def)
  qed
  then show "ui_events (runDueTimers now h) = ui_events h"
    and "cb_isEditing (runDueTimers now h) = cb_isEditing h"
    and "cb_getEditingNode (runDueTimers now h) = cb_getEditingNode h"
    and "doubleClickTimeout (runDueTimers now h) = doubleClickTimeout h"
    and "selectedNode (runDueTimers now h) = selectedNode h"
    and "node_selected (runDueTimers now h) = node_selected h"
    and "timers_wf (runDueTimers now h)"
    and "clickNode (runDueTimers now h) = clickNode h \<or> clickNode (runDueTimers now h) = None"
    by simp_all
qed


lemma handleNodeClick_timers_wf: "timers_wf h \<Longrightarrow> timers_wf (handleNodeClick t n h)"
proof (cases "isDoubleClick t n h")
  case True
  assume "timers_wf h"
  from double_click(6)[OF True this] show ?thesis by (simp add: timers_wf_def)
next
  case False
  assume "timers_wf h"
  from single_click(5)[OF False this] show ?thesis by (simp add: timers_wf_def)
qed

lemma click_timers_wf: "timers_wf h \<Longrightarrow> timers_wf (click t n h)"
  unfolding click_def by (intro handleNodeClick_timers_wf runDueTimers_frame(7))


section \<open>Parsing and serializing: \<^verbatim>\<open>utils/mindmap-utils.ts\<close>\<close>

text \<open>
  The regular expressions of the source are modelled by functions that try the
  alternatives of a backtracking matcher in its order (longest repetition first, an optional
  part present first) and return the first match.  \<open>allNodes\<close> is the array of all node
  objects in the order of their creation; a node object is referred to by its index in it,
  so that \<open>parent\<close>, \<open>children\<close>, \<open>nodeStack\<close> and \<open>lastNode\<close> hold indices, and
  \<open>parentNode.children.push(newNode)\<close> and \<open>lastNode.text = \<dots>\<close> are updates of the array.
  The root node is at index 0.
\<close>

text \<open>Character classes of the regular expressions.\<close>

definition is_line_terminator :: "nat \<Rightarrow> bool" where
  "is_line_terminator c \<longleftrightarrow> c \<in> set [10, 13, 8232, 8233]"

definition is_digit :: "nat \<Rightarrow> bool" where
  "is_digit c \<longleftrightarrow> 48 \<le> c \<and> c \<le> 57"

definition is_marker :: "nat \<Rightarrow> bool" where
  "is_marker c \<longleftrightarrow> c \<in> set [42, 45, 43]"

definition is_blank_or_tab :: "nat \<Rightarrow> bool" where
  "is_blank_or_tab c \<longleftrightarrow> c = 32 \<or> c = 9"

definition is_ident_start :: "nat \<Rightarrow> bool" where
  "is_ident_start c \<longleftrightarrow> (97 \<le> c \<and> c \<le> 122) \<or> (65 \<le> c \<and> c \<le> 90) \<or> c = 95"

definition is_ident_char :: "nat \<Rightarrow> bool" where
  "is_ident_char c \<longleftrightarrow> is_ident_start c \<or> is_digit c"

text \<open>\<open>s.split('\n')\<close>.\<close>

fun split_lines :: "jsstring \<Rightarrow> jsstring list" where
  "split_lines [] = [[]]"
| "split_lines (c # cs) =
     (if c = 10 then [] # split_lines cs
      else (case split_lines cs of l # ls \<Rightarrow> (c # l) # ls | [] \<Rightarrow> [[c]]))"

text \<open>One attempt of \<open>/\[([a-zA-Z_][a-zA-Z0-9_]*:[^\]]+)\]/\<close> at the start of \<open>s\<close>; the result is
  what follows the match.\<close>

definition match_attribute :: "jsstring \<Rightarrow> jsstring option" where
  "match_attribute s =
     (case s of
        b # a # s2 \<Rightarrow>
          if b = 91 \<and> is_ident_start a then
            (case dropWhile is_ident_char s2 of
               col # s4 \<Rightarrow>
                 if col = 58 then
                   (let v = takeWhile (\<lambda>c. c \<noteq> 93) s4; r = dropWhile (\<lambda>c. c \<noteq> 93) s4
                    in if v \<noteq> [] \<and> r \<noteq> [] then Some (tl r) else None)
                 else None
             | [] \<Rightarrow> None)
          else None
      | _ \<Rightarrow> None)"

lemma match_attribute_shorter: "match_attribute s = Some r \<Longrightarrow> length r < length s"
proof -
  assume a: "match_attribute s = Some r"
  then obtain b a' s2 where s: "s = b # a' # s2"
    by (cases s; cases "tl s") (auto simp: match_attribute_def)
  from a s obtain col s4 where d: "dropWhile is_ident_char s2 = col # s4"
    and r: "r = tl (dropWhile (\<lambda>c. c \<noteq> 93) s4)"
    by (auto simp: match_attribute_def Let_def split: if_splits list.splits)
  have "length (col # s4) \<le> length s2" using d length_dropWhile_le[of is_ident_char s2] by simp
  moreover have "length r \<le> length s4"
    unfolding r using length_dropWhile_le[of "\<lambda>c. c \<noteq> 93" s4]
    by (metis diff_le_self le_trans length_tl)
  ultimately show ?thesis using s by simp
qed

text \<open>\<open>text.replace(/\[...\]/g, '')\<close>: scan from the left, drop every match.\<close>

function strip_attributes :: "jsstring \<Rightarrow> jsstring" where
  "strip_attributes [] = []"
| "strip_attributes (c # cs) =
     (case match_attribute (c # cs) of
        Some r \<Rightarrow> strip_attributes r
      | None \<Rightarrow> c # strip_attributes cs)"
  by pat_completeness auto
termination
  by (relation "measure length") (auto dest: match_attribute_shorter)

definition cleanTextContent :: "jsstring \<Rightarrow> jsstring" where
  "cleanTextContent t = (if t = [] then [] else trim (strip_attributes t))"

text \<open>\<open>/^[ \t]*[*\-+]\s+\S/.test(line) || /^[ \t]*\d+\.\s+\S/.test(line)\<close>.\<close>

definition spaces_then_nonspace :: "jsstring \<Rightarrow> bool" where
  "spaces_then_nonspace s \<longleftrightarrow> s \<noteq> [] \<and> is_space (hd s) \<and> dropWhile is_space s \<noteq> []"

definition isListItem :: "jsstring \<Rightarrow> bool" where
  "isListItem line =
     (let r = dropWhile is_blank_or_tab line
      in (r \<noteq> [] \<and> is_marker (hd r) \<and> spaces_then_nonspace (tl r)) \<or>
         (let ds = takeWhile is_digit r; r1 = dropWhile is_digit r
          in ds \<noteq> [] \<and> r1 \<noteq> [] \<and> hd r1 = 46 \<and> spaces_then_nonspace (tl r1)))"

text \<open>The first result of a list of attempts, in the order a backtracking matcher tries them.\<close>

fun first_some :: "('a \<Rightarrow> 'b option) \<Rightarrow> 'a list \<Rightarrow> 'b option" where
  "first_some f [] = None"
| "first_some f (x # xs) = (case f x of Some y \<Rightarrow> Some y | None \<Rightarrow> first_some f xs)"

text \<open>Greedy quantifiers try the longest repetition first: the counts \<open>n, n - 1, \<dots>, lo\<close>.\<close>

definition greedy :: "nat \<Rightarrow> nat \<Rightarrow> nat list" where
  "greedy lo n = rev [lo..<Suc n]"

text \<open>\<open>(.+)$\<close>: the rest of the line, not empty, without a line terminator.\<close>

definition match_content :: "jsstring \<Rightarrow> jsstring option" where
  "match_content s = (if s \<noteq> [] \<and> list_all (\<lambda>c. \<not> is_line_terminator c) s then Some s else None)"

text \<open>\<open>\s+(.+)$\<close>.\<close>

definition match_spaces_content :: "jsstring \<Rightarrow> jsstring option" where
  "match_spaces_content s =
     first_some (\<lambda>k. match_content (drop k s)) (greedy 1 (length (takeWhile is_space s)))"

text \<open>\<open>[*\-+]?\d*\.?\<close> followed by \<open>\s+(.+)$\<close>: every optional part is tried present first.\<close>

definition match_dot_tail :: "jsstring \<Rightarrow> jsstring option" where
  "match_dot_tail s =
     first_some match_spaces_content ((if s \<noteq> [] \<and> hd s = 46 then [tl s] else []) @ [s])"

definition match_digits_tail :: "jsstring \<Rightarrow> jsstring option" where
  "match_digits_tail s =
     first_some (\<lambda>j. match_dot_tail (drop j s)) (greedy 0 (length (takeWhile is_digit s)))"

definition match_marker_tail :: "jsstring \<Rightarrow> jsstring option" where
  "match_marker_tail s =
     first_some match_digits_tail ((if s \<noteq> [] \<and> is_marker (hd s) then [tl s] else []) @ [s])"

record ListItem =
  li_level :: nat
  li_content :: jsstring
  li_indent :: jsstring

text \<open>\<open>line.match(/^(\s*)([*\-+]?\d*\.?)\s+(.+)$/)\<close>, then \<open>level = floor(indent.length / 4)\<close>.\<close>

definition parseListItem :: "jsstring \<Rightarrow> ListItem option" where
  "parseListItem line =
     first_some
       (\<lambda>i. case match_marker_tail (drop i line) of
               None \<Rightarrow> None
             | Some content \<Rightarrow>
                 Some \<lparr>li_level = i div 4, li_content = cleanTextContent content, li_indent = take i line\<rparr>)
       (greedy 0 (length (takeWhile is_space line)))"

text \<open>\<open>getFileNameWithoutExtension\<close>: \<open>filePath.replace(/^.*[\\\/]/, '').replace(/\.md$/, '')\<close>.\<close>

definition strip_directories :: "jsstring \<Rightarrow> jsstring" where
  "strip_directories p =
     (let reach = takeWhile (\<lambda>c. \<not> is_line_terminator c) p;
          cut = first_some (\<lambda>k. if k > 0 \<and> (reach ! (k - 1) = 92 \<or> reach ! (k - 1) = 47) then Some k else None)
                  (greedy 1 (length reach))
      in case cut of None \<Rightarrow> p | Some k \<Rightarrow> drop k p)"

definition getFileNameWithoutExtension :: "jsstring \<Rightarrow> jsstring" where
  "getFileNameWithoutExtension filePath =
     (if filePath = [] then str ''Untitled''
      else (let fileName = strip_directories filePath;
                n = length fileName
            in if n \<ge> 3 \<and> drop (n - 3) fileName = str ''.md'' then take (n - 3) fileName else fileName))"

record ParseState =
  allNodes :: "MindMapNode list"
  nodeStack :: "nat list"
  maxLevel :: nat
  lastNode :: "nat option"
  lastIndentLength :: nat

definition createNode :: "jsstring \<Rightarrow> nat \<Rightarrow> MindMapNode" where
  "createNode t l = \<lparr>ntext = t, level = l, parent = None, children = [], color = None,
     icon = None, link = None, expanded = True, selected = None, hovered = None,
     node_x = None, node_y = None, nodeWidth = None, nodeHeight = None,
     subtreeWidth = None, subtreeHeight = None\<rparr>"

definition stripIdentifier :: "jsstring \<Rightarrow> jsstring" where
  "stripIdentifier content =
     (if take 8 content = str ''#mindmap'' then dropWhile is_space (drop 8 content) else content)"

definition popStack :: "nat \<Rightarrow> nat list \<Rightarrow> nat list" where
  "popStack n s = (if length s > n then take n s else s)"

definition addListItem :: "ListItem \<Rightarrow> ParseState \<Rightarrow> ParseState" where
  "addListItem item st =
     (let newRef = length (allNodes st);
          newNode = createNode (li_content item) (li_level item + 1);
          stack1 = popStack (li_level item + 1) (nodeStack st);
          (newNode1, nodes1) =
             (if stack1 = [] then (newNode, allNodes st)
              else (let p = last stack1
                    in (newNode\<lparr>parent := Some p\<rparr>,
                        (allNodes st)[p := (allNodes st ! p)\<lparr>children := children (allNodes st ! p) @ [newRef]\<rparr>]))
             )
      in \<lparr>allNodes = nodes1 @ [newNode1], nodeStack = stack1 @ [newRef],
          maxLevel = max (maxLevel st) (level newNode1), lastNode = Some newRef,
          lastIndentLength = length (li_indent item)\<rparr>)"

definition addContinuation :: "jsstring \<Rightarrow> ParseState \<Rightarrow> ParseState" where
  "addContinuation line st =
     (let currentIndent = length (takeWhile is_space line)
      in case lastNode st of
           None \<Rightarrow> st
         | Some lastRef \<Rightarrow>
             if currentIndent > lastIndentLength st then
               (let lineContent = trim line
                in if lineContent \<noteq> [] then
                     st\<lparr>allNodes := (allNodes st)[lastRef := (allNodes st ! lastRef)\<lparr>ntext := ntext (allNodes st ! lastRef) @ [10] @ lineContent\<rparr>]\<rparr>
                   else st)
             else st)"

definition parseLine :: "jsstring \<Rightarrow> ParseState \<Rightarrow> ParseState" where
  "parseLine line st =
     (if trim line = [] then st
      else if isListItem line then
        (case parseListItem line of None \<Rightarrow> st | Some item \<Rightarrow> addListItem item st)
      else addContinuation line st)"

definition parseMarkdownContent :: "jsstring \<Rightarrow> jsstring \<Rightarrow> ParseState" where
  "parseMarkdownContent content filePath =
     (let lines = split_lines (stripIdentifier content);
          rootNode = createNode (getFileNameWithoutExtension filePath) 0
      in fold parseLine lines
           \<lparr>allNodes = [rootNode], nodeStack = [0], maxLevel = 0, lastNode = None, lastIndentLength = 0\<rparr>)"

subsection \<open>Serializing\<close>

text \<open>
  \<open>generateMarkdownFromNodes\<close> walks the object graph from the root through \<open>children\<close>;
  \<open>mtree\<close> is that graph unfolded from one node, and \<open>tree_of\<close> unfolds it from a store
  of nodes, with fuel against a cyclic store (\<open>None\<close> when the fuel runs out or a reference
  is dangling).  \<open>MINDMAP_IDENTIFIER\<close> comes from \<^verbatim>\<open>constants/mindmap-constants\<close>, which
  is not part of the sources at hand; its value is the one the parser's own regular
  expression \<open>/^#mindmap\s*\n?/\<close> strips.  \<open>"    ".repeat(indentLevel - 1)\<close> is only reached
  with \<open>indentLevel \<ge> 1\<close>: the top-level call passes \<open>child.level\<close> and a node of level 0
  returns before.
\<close>

datatype mtree = MTree (tnode: MindMapNode) (subtrees: "mtree list")

fun tree_of :: "nat \<Rightarrow> MindMapNode list \<Rightarrow> nat \<Rightarrow> mtree option" where
  "tree_of 0 store r = None"
| "tree_of (Suc fuel) store r =
     (if r < length store then
        map_option (MTree (store ! r)) (those (map (tree_of fuel store) (children (store ! r))))
      else None)"

definition MINDMAP_IDENTIFIER :: jsstring where
  "MINDMAP_IDENTIFIER = str ''#mindmap''"

fun generateNodeMarkdown :: "mtree \<Rightarrow> nat \<Rightarrow> jsstring" where
  "generateNodeMarkdown (MTree node cs) indentLevel =
     (if level node = 0 then []
      else
        (let indent = replicate (4 * (indentLevel - 1)) 32;
             lines = split_lines (ntext node);
             continuationIndent = indent @ [32, 32]
         in indent @ [42, 32] @ hd lines @ [10]
            @ concat (map (\<lambda>l. continuationIndent @ l @ [10]) (tl lines))
            @ concat (map (\<lambda>c. generateNodeMarkdown c (indentLevel + 1)) cs)))"

definition generateMarkdownFromNodes :: "mtree \<Rightarrow> jsstring" where
  "generateMarkdownFromNodes rootNode =
     MINDMAP_IDENTIFIER @ [10, 10]
     @ concat (map (\<lambda>child. generateNodeMarkdown child (level (tnode child))) (subtrees rootNode))"

definition rootTree :: "ParseState \<Rightarrow> mtree option" where
  "rootTree st = tree_of (length (allNodes st)) (allNodes st) 0"

definition reparse :: "jsstring \<Rightarrow> jsstring \<Rightarrow> jsstring option" where
  "reparse content filePath =
     map_option generateMarkdownFromNodes (rootTree (parseMarkdownContent content filePath))"

lemmas parse_defs = parseMarkdownContent_def parseLine_def addListItem_def addContinuation_def
  popStack_def stripIdentifier_def createNode_def parseListItem_def match_marker_tail_def
  match_digits_tail_def match_dot_tail_def match_spaces_content_def match_content_def greedy_def
  isListItem_def spaces_then_nonspace_def cleanTextContent_def match_attribute_def trim_def
  is_space_def is_marker_def is_digit_def is_blank_or_tab_def is_line_terminator_def
  is_ident_start_def is_ident_char_def getFileNameWithoutExtension_def strip_directories_def
  str_def Let_def

lemmas serialize_defs = reparse_def rootTree_def generateMarkdownFromNodes_def MINDMAP_IDENTIFIER_def

subsection \<open>Strings\<close>

lemma split_lines_nonempty: "split_lines s \<noteq> []"
  by (induction s) (auto split: list.splits)

lemma split_lines_no_newline: "l \<in> set (split_lines s) \<Longrightarrow> 10 \<notin> set l"
  by (induction s arbitrary: l) (auto split: list.splits if_splits)

text \<open>\<open>lines.join('\n')\<close>\<close>

definition join_lines :: "jsstring list \<Rightarrow> jsstring" where
  "join_lines ls = hd ls @ concat (map (\<lambda>l. 10 # l) (tl ls))"

lemma join_split: "join_lines (split_lines s) = s"
proof (induction s)
  case Nil
  then show ?case by (simp add: join_lines_def)
next
  case (Cons c s)
  then show ?case
    using split_lines_nonempty[of s]
    by (cases "split_lines s") (auto simp: join_lines_def)
qed

lemma split_terminated:
  "\<forall>l\<in>set ls. 10 \<notin> set l \<Longrightarrow> split_lines (concat (map (\<lambda>l. l @ [10]) ls)) = ls @ [[]]"
proof (induction ls)
  case Nil
  then show ?case by simp
next
  case (Cons l ls)
  have "10 \<notin> set l \<Longrightarrow> split_lines (l @ 10 # r) = l # split_lines r" for r
    by (induction l) (auto split: list.splits)
  with Cons show ?case by simp
qed

lemma trim_eq_Nil: "trim s = [] \<longleftrightarrow> (\<forall>c\<in>set s. is_space c)"
proof -
  let ?d = "dropWhile is_space s"
  have "?d \<noteq> [] \<Longrightarrow> dropWhile is_space (rev ?d) \<noteq> []"
  proof -
    assume ne: "?d \<noteq> []"
    then have "\<not> is_space (hd ?d)" by (rule hd_dropWhile)
    moreover have "hd ?d \<in> set (rev ?d)" using ne by simp
    ultimately show ?thesis by (auto simp: dropWhile_eq_Nil_conv simp del: set_rev)
  qed
  moreover have "?d = [] \<Longrightarrow> trim s = []"
  proof -
    assume a: "?d = []"
    show ?thesis unfolding trim_def a by simp
  qed
  ultimately have "trim s = [] \<longleftrightarrow> ?d = []"
    unfolding trim_def by (metis rev_is_Nil_conv)
  then show ?thesis by (simp add: dropWhile_eq_Nil_conv)
qed

lemma dropWhile_replicate_append: "P x \<Longrightarrow> dropWhile P (replicate k x @ s) = dropWhile P s"
  by (induction k) simp_all

lemma takeWhile_replicate_append: "P x \<Longrightarrow> takeWhile P (replicate k x @ s) = replicate k x @ takeWhile P s"
  by (induction k) simp_all

lemma trim_indent: "trim (replicate k 32 @ s) = trim s"
  by (simp add: trim_def dropWhile_replicate_append is_space_def)

lemma trim_fixed_hd: "trim l = l \<Longrightarrow> l \<noteq> [] \<Longrightarrow> \<not> is_space (hd l)"
proof
  assume t: "trim l = l" and ne: "l \<noteq> []" and sp: "is_space (hd l)"
  have "length (trim l) \<le> length (dropWhile is_space l)"
    using length_dropWhile_le[of is_space "rev (dropWhile is_space l)"] by (simp add: trim_def)
  moreover have "length (dropWhile is_space l) < length l"
    using ne sp by (cases l) (auto simp: le_imp_less_Suc length_dropWhile_le)
  ultimately show False using t by simp
qed

lemma isListItem_indent: "isListItem (replicate k 32 @ s) = isListItem s"
  by (simp add: isListItem_def dropWhile_replicate_append is_blank_or_tab_def)

lemma header_isListItem:
  "l0 \<noteq> [] \<Longrightarrow> \<not> is_space (hd l0) \<Longrightarrow> isListItem (replicate k 32 @ [42, 32] @ l0)"
  by (cases l0) (simp_all add: isListItem_indent, simp add: isListItem_def spaces_then_nonspace_def
      is_blank_or_tab_def is_marker_def is_space_def)

lemma header_parseListItem:
  assumes "l0 \<noteq> []" "\<not> is_space (hd l0)" "\<forall>c\<in>set l0. \<not> is_line_terminator c"
  shows "parseListItem (replicate k 32 @ [42, 32] @ l0) =
         Some \<lparr>li_level = k div 4, li_content = cleanTextContent l0, li_indent = replicate k 32\<rparr>"
proof -
  obtain c cs where l0: "l0 = c # cs" using assms(1) by (cases l0) auto
  have nsp: "\<not> is_space c" using assms(2) l0 by simp
  have tw: "takeWhile is_space (replicate k 32 @ [42, 32] @ l0) = replicate k 32"
    by (simp add: takeWhile_replicate_append is_space_def)
  have g: "greedy 0 k = k # rev [0..<k]" by (simp add: greedy_def)
  have mc: "match_content l0 = Some l0"
    using assms(1,3) by (simp add: match_content_def list_all_iff)
  have sp32: "is_space 32" by (simp add: is_space_def)
  have msc: "match_spaces_content (32 # l0) = Some l0"
    using nsp mc by (simp add: match_spaces_content_def l0 greedy_def sp32)
  have mdt: "match_dot_tail (32 # l0) = Some l0"
    using msc by (simp add: match_dot_tail_def)
  have mdg: "match_digits_tail (32 # l0) = Some l0"
    using mdt by (simp add: match_digits_tail_def greedy_def is_digit_def)
  have mmt: "match_marker_tail (42 # 32 # l0) = Some l0"
    using mdg by (simp add: match_marker_tail_def is_marker_def)
  show ?thesis
    unfolding parseListItem_def tw by (simp add: g mmt)
qed

lemma header_parseLine:
  assumes "l0 \<noteq> []" "\<not> is_space (hd l0)" "\<forall>c\<in>set l0. \<not> is_line_terminator c"
  shows "parseLine (replicate k 32 @ [42, 32] @ l0) st =
         addListItem \<lparr>li_level = k div 4, li_content = cleanTextContent l0, li_indent = replicate k 32\<rparr> st"
proof -
  have "trim (replicate k 32 @ [42, 32] @ l0) \<noteq> []"
    by (simp add: trim_eq_Nil is_space_def)
  then show ?thesis
    using header_isListItem[OF assms(1,2), of k] header_parseListItem[OF assms, of k]
    by (simp add: parseLine_def)
qed

lemma continuation_parseLine:
  assumes "l \<noteq> []" "trim l = l" "\<not> isListItem l" "lastNode st = Some r" "lastIndentLength st = k"
  shows "parseLine (replicate k 32 @ [32, 32] @ l) st =
         st\<lparr>allNodes := (allNodes st)[r := (allNodes st ! r)\<lparr>ntext := ntext (allNodes st ! r) @ [10] @ l\<rparr>]\<rparr>"
proof -
  have e: "replicate k 32 @ [32, 32] @ l = replicate (k + 2) 32 @ l"
    by (induction k) simp_all
  have t: "trim (replicate k 32 @ [32, 32] @ l) = l"
    by (simp only: e trim_indent assms(2))
  have n: "\<not> isListItem (replicate k 32 @ [32, 32] @ l)"
    by (simp only: e isListItem_indent assms(3) not_False_eq_True)
  have len: "length (takeWhile is_space (replicate k 32 @ [32, 32] @ l)) > k"
    unfolding e by (simp add: takeWhile_replicate_append is_space_def del: replicate_Suc replicate.simps)
  show ?thesis
    using t n len assms(1,4,5) by (simp add: parseLine_def addContinuation_def Let_def)
qed

subsection \<open>Outlines\<close>

datatype outline = Outline (otext: jsstring) (olevel: nat) (items: "outline list")

fun outline_of :: "mtree \<Rightarrow> outline" where
  "outline_of (MTree node cs) = Outline (ntext node) (level node) (map outline_of cs)"

fun node_lines :: "nat \<Rightarrow> outline \<Rightarrow> jsstring list" where
  "node_lines d (Outline t l cs) =
     (replicate (4 * (d - 1)) 32 @ [42, 32] @ hd (split_lines t))
     # map (\<lambda>l. replicate (4 * (d - 1)) 32 @ [32, 32] @ l) (tl (split_lines t))
     @ concat (map (node_lines (Suc d)) cs)"

definition first_line_ok :: "jsstring \<Rightarrow> bool" where
  "first_line_ok l \<longleftrightarrow>
     l \<noteq> [] \<and> list_all (\<lambda>c. \<not> is_line_terminator c) l \<and> cleanTextContent l = l"

definition continuation_ok :: "jsstring \<Rightarrow> bool" where
  "continuation_ok l \<longleftrightarrow> l \<noteq> [] \<and> trim l = l \<and> \<not> isListItem l"

definition text_ok :: "jsstring \<Rightarrow> bool" where
  "text_ok t \<longleftrightarrow> first_line_ok (hd (split_lines t)) \<and> list_all continuation_ok (tl (split_lines t))"

fun canonical :: "nat \<Rightarrow> outline \<Rightarrow> bool" where
  "canonical d (Outline t l cs) \<longleftrightarrow> l = d \<and> 0 < d \<and> text_ok t \<and> list_all (canonical (Suc d)) cs"

definition attach :: "nat \<Rightarrow> nat \<Rightarrow> MindMapNode list \<Rightarrow> MindMapNode list" where
  "attach p c S = S[p := (S ! p)\<lparr>children := children (S ! p) @ [c]\<rparr>]"

fun add_tree :: "outline \<Rightarrow> nat \<Rightarrow> MindMapNode list \<Rightarrow> MindMapNode list" where
  "add_tree (Outline t l cs) p S =
     fold (\<lambda>c S'. add_tree c (length S) S') cs
       (attach p (length S) S @ [(createNode t l)\<lparr>parent := Some p\<rparr>])"

lemma dropWhile_id: "xs = [] \<or> \<not> P (hd xs) \<Longrightarrow> dropWhile P xs = xs"
  by (cases xs) auto

lemma trim_idem: "trim (trim s) = trim s"
proof -
  let ?d = "dropWhile is_space s"
  let ?z = "dropWhile is_space (rev ?d)"
  have y: "trim s = rev ?z" by (simp add: trim_def)
  have z: "?z = [] \<or> \<not> is_space (hd ?z)" using hd_dropWhile[of is_space "rev ?d"] by blast
  have d: "?d = rev ?z @ rev (takeWhile is_space (rev ?d))"
    by (metis rev_append rev_rev_ident takeWhile_dropWhile_id)
  have dn: "?d = [] \<or> \<not> is_space (hd ?d)" using hd_dropWhile[of is_space s] by blast
  have "rev ?z = [] \<or> \<not> is_space (hd (rev ?z))"
  proof (cases "rev ?z = []")
    case True
    then show ?thesis by simp
  next
    case False
    then have "hd ?d = hd (rev ?z)" using d by (metis hd_append2)
    moreover have "?d \<noteq> []" using d False by (metis append_is_Nil_conv)
    ultimately show ?thesis using dn by metis
  qed
  then have a: "dropWhile is_space (rev ?z) = rev ?z" by (rule dropWhile_id)
  have b: "dropWhile is_space ?z = ?z" using z by (rule dropWhile_id)
  show ?thesis unfolding y unfolding trim_def a by (simp add: b)
qed

lemma first_line_ok_hd: "first_line_ok l \<Longrightarrow> \<not> is_space (hd l)"
proof -
  assume a: "first_line_ok l"
  then have ne: "l \<noteq> []" and c: "cleanTextContent l = l" by (simp_all add: first_line_ok_def)
  from c ne have "trim (strip_attributes l) = l" by (simp add: cleanTextContent_def)
  then have "trim l = l"
    using trim_idem[of "strip_attributes l"] by simp
  then show ?thesis using ne by (rule trim_fixed_hd)
qed


subsection \<open>Parsing the lines of a canonical outline\<close>

lemma length_attach [simp]: "length (attach p c S) = length S"
  by (simp add: attach_def)

lemma header_step:
  assumes "first_line_ok l0" "0 < d" "d \<le> length (nodeStack st)"
  shows "parseLine (replicate (4 * (d - 1)) 32 @ [42, 32] @ l0) st =
         \<lparr>allNodes = attach (nodeStack st ! (d - 1)) (length (allNodes st)) (allNodes st)
                       @ [(createNode l0 d)\<lparr>parent := Some (nodeStack st ! (d - 1))\<rparr>],
          nodeStack = take d (nodeStack st) @ [length (allNodes st)],
          maxLevel = max (maxLevel st) d,
          lastNode = Some (length (allNodes st)),
          lastIndentLength = 4 * (d - 1)\<rparr>"
proof -
  have ne: "l0 \<noteq> []" and lt: "\<forall>c\<in>set l0. \<not> is_line_terminator c" and cl: "cleanTextContent l0 = l0"
    using assms(1) by (simp_all add: first_line_ok_def list_all_iff)
  have hd: "\<not> is_space (hd l0)" using assms(1) by (rule first_line_ok_hd)
  have pop: "popStack d (nodeStack st) = take d (nodeStack st)"
    using assms(3) by (simp add: popStack_def)
  have tne: "take d (nodeStack st) \<noteq> []" using assms(2,3) by (cases "nodeStack st") auto
  have last: "last (take d (nodeStack st)) = nodeStack st ! (d - 1)"
    using assms(2,3) tne by (simp add: last_conv_nth min_def)
  have lvl: "(4 * (d - 1)) div 4 + 1 = d" using assms(2) by simp
  show ?thesis
    unfolding header_parseLine[OF ne hd lt] cl
    using tne by (simp add: addListItem_def Let_def pop last lvl attach_def createNode_def)
qed

lemma continuation_steps:
  assumes "list_all continuation_ok ls" "lastNode st = Some r" "lastIndentLength st = k"
    and "r < length (allNodes st)"
  shows "fold parseLine (map (\<lambda>l. replicate k 32 @ [32, 32] @ l) ls) st =
         st\<lparr>allNodes := (allNodes st)[r := (allNodes st ! r)
               \<lparr>ntext := ntext (allNodes st ! r) @ concat (map (\<lambda>l. 10 # l) ls)\<rparr>]\<rparr>"
  using assms
proof (induction ls arbitrary: st)
  case Nil
  then show ?case by simp
next
  case (Cons l ls)
  let ?st1 = "st\<lparr>allNodes := (allNodes st)[r := (allNodes st ! r)\<lparr>ntext := ntext (allNodes st ! r) @ [10] @ l\<rparr>]\<rparr>"
  have ok: "l \<noteq> []" "trim l = l" "\<not> isListItem l"
    using Cons.prems(1) by (simp_all add: continuation_ok_def)
  have step: "parseLine (replicate k 32 @ [32, 32] @ l) st = ?st1"
    by (rule continuation_parseLine[OF ok Cons.prems(2,3)])
  have "fold parseLine (map (\<lambda>l. replicate k 32 @ [32, 32] @ l) ls) ?st1 =
        ?st1\<lparr>allNodes := (allNodes ?st1)[r := (allNodes ?st1 ! r)
               \<lparr>ntext := ntext (allNodes ?st1 ! r) @ concat (map (\<lambda>l. 10 # l) ls)\<rparr>]\<rparr>"
    using Cons.prems by (intro Cons.IH) simp_all
  then show ?case
    using Cons.prems(4) step by simp
qed

lemma take_Suc_snoc: "d < length xs \<Longrightarrow> take (Suc d) xs = take d xs @ [xs ! d]"
  by (rule take_Suc_conv_app_nth)

lemma parse_node_lines:
  assumes "canonical d ol" "d \<le> length (nodeStack st)"
  shows "allNodes (fold parseLine (node_lines d ol) st) = add_tree ol (nodeStack st ! (d - 1)) (allNodes st) \<and>
         take (Suc d) (nodeStack (fold parseLine (node_lines d ol) st)) = take d (nodeStack st) @ [length (allNodes st)] \<and>
         d < length (nodeStack (fold parseLine (node_lines d ol) st))"
  using assms
proof (induction ol arbitrary: d st)
  case (Outline t l cs)
  let ?p = "nodeStack st ! (d - 1)"
  let ?i = "length (allNodes st)"
  let ?ls = "split_lines t"
  have d0: "0 < d" and l: "l = d" and tok: "text_ok t" and csok: "list_all (canonical (Suc d)) cs"
    using Outline.prems(1) by simp_all
  have fl: "first_line_ok (hd ?ls)" and cl: "list_all continuation_ok (tl ?ls)"
    using tok by (simp_all add: text_ok_def)
  define st1 where "st1 = parseLine (replicate (4 * (d - 1)) 32 @ [42, 32] @ hd ?ls) st"
  have st1: "st1 = \<lparr>allNodes = attach ?p ?i (allNodes st) @ [(createNode (hd ?ls) d)\<lparr>parent := Some ?p\<rparr>],
          nodeStack = take d (nodeStack st) @ [?i], maxLevel = max (maxLevel st) d,
          lastNode = Some ?i, lastIndentLength = 4 * (d - 1)\<rparr>"
    unfolding st1_def by (rule header_step[OF fl d0 Outline.prems(2)])
  define st2 where "st2 = fold parseLine (map (\<lambda>l. replicate (4 * (d - 1)) 32 @ [32, 32] @ l) (tl ?ls)) st1"
  have "st2 = st1\<lparr>allNodes := (allNodes st1)[?i := (allNodes st1 ! ?i)
               \<lparr>ntext := ntext (allNodes st1 ! ?i) @ concat (map (\<lambda>l. 10 # l) (tl ?ls))\<rparr>]\<rparr>"
    unfolding st2_def
    by (rule continuation_steps[OF cl]) (simp_all add: st1)
  then have st2: "st2 = \<lparr>allNodes = attach ?p ?i (allNodes st) @ [(createNode t d)\<lparr>parent := Some ?p\<rparr>],
          nodeStack = take d (nodeStack st) @ [?i], maxLevel = max (maxLevel st) d,
          lastNode = Some ?i, lastIndentLength = 4 * (d - 1)\<rparr>"
    using join_split[of t]
    by (simp add: st1 nth_append list_update_append createNode_def join_lines_def)
  have kids: "set cs' \<subseteq> set cs \<Longrightarrow> Suc d \<le> length (nodeStack s) \<Longrightarrow>
      allNodes (fold parseLine (concat (map (node_lines (Suc d)) cs')) s) =
        fold (\<lambda>c S'. add_tree c (nodeStack s ! d) S') cs' (allNodes s) \<and>
      take (Suc d) (nodeStack (fold parseLine (concat (map (node_lines (Suc d)) cs')) s)) = take (Suc d) (nodeStack s) \<and>
      d < length (nodeStack (fold parseLine (concat (map (node_lines (Suc d)) cs')) s))" for cs' s
  proof (induction cs' arbitrary: s)
    case Nil
    then show ?case by simp
  next
    case (Cons c cs')
    let ?s1 = "fold parseLine (node_lines (Suc d) c) s"
    have cin: "c \<in> set cs" using Cons.prems(1) by simp
    then have cok: "canonical (Suc d) c" using csok by (simp add: list_all_iff)
    from Outline.IH[OF cin cok Cons.prems(2)]
    have a: "allNodes ?s1 = add_tree c (nodeStack s ! d) (allNodes s)"
      and b: "take (Suc (Suc d)) (nodeStack ?s1) = take (Suc d) (nodeStack s) @ [length (allNodes s)]"
      and c: "Suc d < length (nodeStack ?s1)"
      by simp_all
    have len: "Suc d \<le> length (nodeStack ?s1)" using c by simp
    have "take (Suc d) (take (Suc (Suc d)) (nodeStack ?s1)) = take (Suc d) (take (Suc d) (nodeStack s) @ [length (allNodes s)])"
      using b by simp
    then have tk: "take (Suc d) (nodeStack ?s1) = take (Suc d) (nodeStack s)"
      using Cons.prems(2) by (simp add: min_def)
    have "nodeStack ?s1 ! d = take (Suc d) (nodeStack ?s1) ! d" by simp
    also have "\<dots> = nodeStack s ! d" unfolding tk by simp
    finally have q: "nodeStack ?s1 ! d = nodeStack s ! d" .
    have sub: "set cs' \<subseteq> set cs" using Cons.prems(1) by simp
    from Cons.IH[OF sub len] a q tk show ?case by simp
  qed
  have len2: "Suc d \<le> length (nodeStack st2)" using Outline.prems(2) by (simp add: st2)
  have q2: "nodeStack st2 ! d = ?i" using Outline.prems(2) by (simp add: st2 nth_append)
  have fold_eq: "fold parseLine (node_lines d (Outline t l cs)) st =
                 fold parseLine (concat (map (node_lines (Suc d)) cs)) st2"
    by (simp add: st2_def st1_def)
  from kids[OF subset_refl len2] q2
  show ?case
    unfolding fold_eq using Outline.prems(2) by (simp add: st2 l)
qed

subsection \<open>Reading an outline back from the store\<close>

fun osize :: "outline \<Rightarrow> nat" where
  "osize (Outline t l cs) = Suc (sum_list (map osize cs))"

fun child_refs :: "nat \<Rightarrow> outline list \<Rightarrow> nat list" where
  "child_refs n [] = []"
| "child_refs n (c # cs) = n # child_refs (n + osize c) cs"

definition block_closed :: "MindMapNode list \<Rightarrow> nat \<Rightarrow> nat \<Rightarrow> bool" where
  "block_closed S lo hi \<longleftrightarrow> (\<forall>k. lo \<le> k \<and> k < hi \<longrightarrow> (\<forall>c\<in>set (children (S ! k)). k < c \<and> c < hi))"

lemma tree_of_frame:
  assumes "block_closed S lo hi" "hi \<le> length S" "hi \<le> length S'"
    and "\<forall>k. lo \<le> k \<and> k < hi \<longrightarrow> S' ! k = S ! k"
    and "lo \<le> j" "j < hi"
  shows "tree_of f S' j = tree_of f S j"
  using assms(5,6)
proof (induction f arbitrary: j)
  case 0
  then show ?case by simp
next
  case (Suc f)
  have same: "S' ! j = S ! j" using assms(4) Suc.prems by blast
  have inS: "j < length S" and inS': "j < length S'" using assms(2,3) Suc.prems(2) by linarith+
  have kids: "map (tree_of f S') (children (S ! j)) = map (tree_of f S) (children (S ! j))"
  proof (rule map_cong[OF refl])
    fix c assume "c \<in> set (children (S ! j))"
    then have "j < c \<and> c < hi" using assms(1) Suc.prems unfolding block_closed_def by blast
    then have "lo \<le> c" "c < hi" using Suc.prems(1) by linarith+
    then show "tree_of f S' c = tree_of f S c" by (rule Suc.IH)
  qed
  have "tree_of (Suc f) S' j = map_option (MTree (S' ! j)) (those (map (tree_of f S') (children (S' ! j))))"
    using inS' by simp
  also have "\<dots> = map_option (MTree (S ! j)) (those (map (tree_of f S) (children (S ! j))))"
    unfolding same kids ..
  also have "\<dots> = tree_of (Suc f) S j" using inS by simp
  finally show ?case .
qed

definition tree_added :: "outline \<Rightarrow> nat \<Rightarrow> MindMapNode list \<Rightarrow> MindMapNode list \<Rightarrow> bool" where
  "tree_added ol p S S' \<longleftrightarrow>
     length S' = length S + osize ol \<and>
     (\<forall>k<length S. k \<noteq> p \<longrightarrow> S' ! k = S ! k) \<and>
     S' ! p = (S ! p)\<lparr>children := children (S ! p) @ [length S]\<rparr> \<and>
     block_closed S' (length S) (length S') \<and>
     (\<exists>t. tree_of (osize ol) S' (length S) = Some t \<and> outline_of t = ol)"

definition items_added :: "outline list \<Rightarrow> nat \<Rightarrow> MindMapNode list \<Rightarrow> MindMapNode list \<Rightarrow> bool" where
  "items_added cs q X Y \<longleftrightarrow>
     length Y = length X + sum_list (map osize cs) \<and>
     (\<forall>k<length X. k \<noteq> q \<longrightarrow> Y ! k = X ! k) \<and>
     Y ! q = (X ! q)\<lparr>children := children (X ! q) @ child_refs (length X) cs\<rparr> \<and>
     block_closed Y (length X) (length Y) \<and>
     (\<exists>ts. those (map (tree_of (sum_list (map osize cs)) Y) (child_refs (length X) cs)) = Some ts \<and>
           map outline_of ts = cs)"


lemma those_Cons:
  "those (x # xs) = (case x of None \<Rightarrow> None | Some y \<Rightarrow> map_option ((#) y) (those xs))"
  by simp

lemma tree_of_mono: "tree_of f S j = Some t \<Longrightarrow> f \<le> g \<Longrightarrow> tree_of g S j = Some t"
proof (induction f arbitrary: g j t)
  case 0
  then show ?case by simp
next
  case (Suc f)
  from Suc.prems(2) obtain g' where g: "g = Suc g'" and fg: "f \<le> g'" by (cases g) auto
  have j: "j < length S" using Suc.prems(1) by (simp split: if_splits)
  then obtain ts where ts: "those (map (tree_of f S) (children (S ! j))) = Some ts"
    and t: "t = MTree (S ! j) ts"
    using Suc.prems(1) by auto
  have lift: "those (map (tree_of f S) cs) = Some ts' \<Longrightarrow> those (map (tree_of g' S) cs) = Some ts'" for cs ts'
  proof (induction cs arbitrary: ts')
    case Nil
    then show ?case by simp
  next
    case (Cons c cs)
    from Cons.prems obtain y ys where y: "tree_of f S c = Some y"
      and ys: "those (map (tree_of f S) cs) = Some ys" and e: "ts' = y # ys"
      by (auto split: option.splits)
    have "tree_of g' S c = Some y" using y fg by (rule Suc.IH)
    moreover have "those (map (tree_of g' S) cs) = Some ys" using ys by (rule Cons.IH)
    ultimately show ?case using e by simp
  qed
  have "those (map (tree_of g' S) (children (S ! j))) = Some ts" using ts by (rule lift)
  then show ?case unfolding g using j t by simp
qed

lemma those_tree_of_mono:
  "those (map (tree_of f S) cs) = Some ts \<Longrightarrow> f \<le> g \<Longrightarrow> those (map (tree_of g S) cs) = Some ts"
proof (induction cs arbitrary: ts)
  case Nil
  then show ?case by simp
next
  case (Cons c cs)
  from Cons.prems(1) obtain y ys where y: "tree_of f S c = Some y"
    and ys: "those (map (tree_of f S) cs) = Some ys" and e: "ts = y # ys"
    by (auto split: option.splits)
  have "tree_of g S c = Some y" using y Cons.prems(2) by (rule tree_of_mono)
  moreover have "those (map (tree_of g S) cs) = Some ys" using ys Cons.prems(2) by (rule Cons.IH)
  ultimately show ?case using e by simp
qed

lemma child_refs_bounds:
  "r \<in> set (child_refs n cs) \<Longrightarrow> n \<le> r \<and> r < n + sum_list (map osize cs)"
proof (induction cs arbitrary: n)
  case Nil
  then show ?case by simp
next
  case (Cons c cs)
  have pos: "0 < osize c" by (cases c) simp
  from Cons.prems have "r = n \<or> r \<in> set (child_refs (n + osize c) cs)" by simp
  then show ?case
  proof
    assume "r = n"
    then show ?thesis using pos by simp
  next
    assume "r \<in> set (child_refs (n + osize c) cs)"
    from Cons.IH[OF this] show ?thesis by simp
  qed
qed

lemma closed_frame:
  assumes "block_closed S lo hi" "\<forall>k. lo \<le> k \<and> k < hi \<longrightarrow> S' ! k = S ! k" "hi \<le> hi'"
    and "lo \<le> k" "k < hi" "c \<in> set (children (S' ! k))"
  shows "k < c \<and> c < hi'"
proof -
  have "S' ! k = S ! k" using assms(2,4,5) by blast
  then have "c \<in> set (children (S ! k))" using assms(6) by simp
  then have "k < c \<and> c < hi" using assms(1,4,5) unfolding block_closed_def by blast
  then show ?thesis using assms(3) by linarith
qed

lemma tree_addedD:
  assumes "tree_added ol p S S'"
  shows "length S' = length S + osize ol"
    and "\<And>k. k < length S \<Longrightarrow> k \<noteq> p \<Longrightarrow> S' ! k = S ! k"
    and "S' ! p = (S ! p)\<lparr>children := children (S ! p) @ [length S]\<rparr>"
    and "block_closed S' (length S) (length S')"
    and "\<exists>t. tree_of (osize ol) S' (length S) = Some t \<and> outline_of t = ol"
proof -
  note c = assms[unfolded tree_added_def]
  show "length S' = length S + osize ol" by (rule c[THEN conjunct1])
  show "\<And>k. k < length S \<Longrightarrow> k \<noteq> p \<Longrightarrow> S' ! k = S ! k"
    using c[THEN conjunct2, THEN conjunct1] by blast
  show "S' ! p = (S ! p)\<lparr>children := children (S ! p) @ [length S]\<rparr>"
    by (rule c[THEN conjunct2, THEN conjunct2, THEN conjunct1])
  show "block_closed S' (length S) (length S')"
    by (rule c[THEN conjunct2, THEN conjunct2, THEN conjunct2, THEN conjunct1])
  show "\<exists>t. tree_of (osize ol) S' (length S) = Some t \<and> outline_of t = ol"
    by (rule c[THEN conjunct2, THEN conjunct2, THEN conjunct2, THEN conjunct2])
qed

lemma items_addedD:
  assumes "items_added cs q X Y"
  shows "length Y = length X + sum_list (map osize cs)"
    and "\<And>k. k < length X \<Longrightarrow> k \<noteq> q \<Longrightarrow> Y ! k = X ! k"
    and "Y ! q = (X ! q)\<lparr>children := children (X ! q) @ child_refs (length X) cs\<rparr>"
    and "block_closed Y (length X) (length Y)"
    and "\<exists>ts. those (map (tree_of (sum_list (map osize cs)) Y) (child_refs (length X) cs)) = Some ts \<and>
           map outline_of ts = cs"
proof -
  note c = assms[unfolded items_added_def]
  show "length Y = length X + sum_list (map osize cs)" by (rule c[THEN conjunct1])
  show "\<And>k. k < length X \<Longrightarrow> k \<noteq> q \<Longrightarrow> Y ! k = X ! k"
    using c[THEN conjunct2, THEN conjunct1] by blast
  show "Y ! q = (X ! q)\<lparr>children := children (X ! q) @ child_refs (length X) cs\<rparr>"
    by (rule c[THEN conjunct2, THEN conjunct2, THEN conjunct1])
  show "block_closed Y (length X) (length Y)"
    by (rule c[THEN conjunct2, THEN conjunct2, THEN conjunct2, THEN conjunct1])
  show "\<exists>ts. those (map (tree_of (sum_list (map osize cs)) Y) (child_refs (length X) cs)) = Some ts \<and>
           map outline_of ts = cs"
    by (rule c[THEN conjunct2, THEN conjunct2, THEN conjunct2, THEN conjunct2])
qed

lemma fold_items_added:
  assumes H: "\<And>c p S. c \<in> set cs \<Longrightarrow> p < length S \<Longrightarrow> tree_added c p S (add_tree c p S)"
    and q: "q < length X"
  shows "items_added cs q X (fold (\<lambda>c S'. add_tree c q S') cs X)"
  using assms
proof (induction cs arbitrary: X)
  case Nil
  show ?case by (simp add: items_added_def block_closed_def)
next
  case (Cons c cs)
  let ?X1 = "add_tree c q X"
  let ?Y = "fold (\<lambda>c S'. add_tree c q S') cs ?X1"
  let ?F = "sum_list (map osize cs)"
  have A: "tree_added c q X ?X1" using Cons.prems by simp
  note lenX1 = tree_addedD(1)[OF A] and oldX1 = tree_addedD(2)[OF A] and qX1 = tree_addedD(3)[OF A]
    and clX1 = tree_addedD(4)[OF A] and trX1 = tree_addedD(5)[OF A]
  have q1: "q < length ?X1" using Cons.prems(2) lenX1 by simp
  have B: "items_added cs q ?X1 ?Y"
    using Cons.prems(1) q1 by (intro Cons.IH) simp_all
  note lenY = items_addedD(1)[OF B] and oldY = items_addedD(2)[OF B] and qY = items_addedD(3)[OF B]
    and clY = items_addedD(4)[OF B] and trY = items_addedD(5)[OF B]
  have g1: "length ?Y = length X + sum_list (map osize (c # cs))"
    using lenY lenX1 by simp
  have g2: "\<forall>k<length X. k \<noteq> q \<longrightarrow> ?Y ! k = X ! k"
    using oldY oldX1 lenX1 by simp
  have g3: "?Y ! q = (X ! q)\<lparr>children := children (X ! q) @ child_refs (length X) (c # cs)\<rparr>"
    unfolding qY qX1 by (simp add: lenX1)
  have agree: "\<forall>k. length X \<le> k \<and> k < length ?X1 \<longrightarrow> ?Y ! k = ?X1 ! k"
  proof (intro allI impI)
    fix k assume "length X \<le> k \<and> k < length ?X1"
    then have "k < length ?X1" "k \<noteq> q" using Cons.prems(2) by linarith+
    then show "?Y ! k = ?X1 ! k" by (rule oldY)
  qed
  have le: "length ?X1 \<le> length ?Y" using lenY by simp
  have g4: "block_closed ?Y (length X) (length ?Y)"
    unfolding block_closed_def
  proof (intro allI impI)
    fix k assume k: "length X \<le> k \<and> k < length ?Y"
    show "\<forall>c\<in>set (children (?Y ! k)). k < c \<and> c < length ?Y"
    proof (cases "k < length ?X1")
      case True
      have lo: "length X \<le> k" using k by simp
      show ?thesis
      proof
        fix c' assume "c' \<in> set (children (?Y ! k))"
        then show "k < c' \<and> c' < length ?Y" by (rule closed_frame[OF clX1 agree le lo True])
      qed
    next
      case False
      then have "length ?X1 \<le> k \<and> k < length ?Y" using k by simp
      then show ?thesis using clY unfolding block_closed_def by blast
    qed
  qed
  from trX1 obtain t where t: "tree_of (osize c) ?X1 (length X) = Some t" and ot: "outline_of t = c" by blast
  have pos: "0 < osize c" by (cases c) simp
  have inb: "length X < length ?X1" using lenX1 pos by simp
  have "tree_of (osize c) ?Y (length X) = tree_of (osize c) ?X1 (length X)"
    by (rule tree_of_frame[OF clX1 order_refl le agree order_refl inb])
  with t have tY: "tree_of (osize c + ?F) ?Y (length X) = Some t"
    using tree_of_mono[of "osize c" ?Y "length X" t "osize c + ?F"] by simp
  from trY obtain ts where ts: "those (map (tree_of ?F ?Y) (child_refs (length ?X1) cs)) = Some ts"
    and ots: "map outline_of ts = cs" by blast
  have tsY: "those (map (tree_of (osize c + ?F) ?Y) (child_refs (length X + osize c) cs)) = Some ts"
    using those_tree_of_mono[OF ts, of "osize c + ?F"] by (simp add: lenX1)
  have g5: "\<exists>ts. those (map (tree_of (sum_list (map osize (c # cs))) ?Y) (child_refs (length X) (c # cs))) = Some ts \<and>
           map outline_of ts = c # cs"
    using tY tsY ot ots by simp
  show ?case
    unfolding items_added_def using g1 g2 g3 g4 g5 by simp
qed


lemma nth_attach_other: "k \<noteq> p \<Longrightarrow> attach p c S ! k = S ! k"
  by (simp add: attach_def)

lemma nth_attach_same:
  "p < length S \<Longrightarrow> attach p c S ! p = (S ! p)\<lparr>children := children (S ! p) @ [c]\<rparr>"
  by (simp add: attach_def)

lemma add_tree_added: "p < length S \<Longrightarrow> tree_added ol p S (add_tree ol p S)"
proof (induction ol arbitrary: p S)
  case (Outline t l cs)
  let ?i = "length S"
  let ?new = "(createNode t l)\<lparr>parent := Some p\<rparr>"
  let ?S1 = "attach p ?i S @ [?new]"
  let ?Y = "fold (\<lambda>c S'. add_tree c ?i S') cs ?S1"
  let ?F = "sum_list (map osize cs)"
  have Y: "add_tree (Outline t l cs) p S = ?Y" by simp
  have lenS1: "length ?S1 = Suc ?i" by simp
  have i1: "?i < length ?S1" by simp
  have B: "items_added cs ?i ?S1 ?Y"
    using Outline.IH i1 by (rule fold_items_added)
  note lenY = items_addedD(1)[OF B] and oldY = items_addedD(2)[OF B] and qY = items_addedD(3)[OF B]
    and clY = items_addedD(4)[OF B] and trY = items_addedD(5)[OF B]
  have S1i: "?S1 ! ?i = ?new" by (simp add: nth_append)
  have Yi: "?Y ! ?i = ?new\<lparr>children := child_refs (Suc ?i) cs\<rparr>"
    unfolding qY S1i lenS1 by (simp add: createNode_def)
  have g1: "length ?Y = length S + osize (Outline t l cs)" using lenY by simp
  have g2: "\<forall>k<length S. k \<noteq> p \<longrightarrow> ?Y ! k = S ! k"
  proof (intro allI impI)
    fix k assume k: "k < length S" and kp: "k \<noteq> p"
    have "?Y ! k = ?S1 ! k" using k by (intro oldY) simp_all
    also have "\<dots> = attach p ?i S ! k" using k by (simp add: nth_append)
    also have "\<dots> = S ! k" using kp by (rule nth_attach_other)
    finally show "?Y ! k = S ! k" .
  qed
  have g3: "?Y ! p = (S ! p)\<lparr>children := children (S ! p) @ [length S]\<rparr>"
  proof -
    have "?Y ! p = ?S1 ! p" using Outline.prems by (intro oldY) simp_all
    also have "\<dots> = attach p ?i S ! p" using Outline.prems by (simp add: nth_append)
    also have "\<dots> = (S ! p)\<lparr>children := children (S ! p) @ [length S]\<rparr>"
      using Outline.prems by (rule nth_attach_same)
    finally show ?thesis .
  qed
  have g4: "block_closed ?Y ?i (length ?Y)"
    unfolding block_closed_def
  proof (intro allI impI)
    fix k assume k: "?i \<le> k \<and> k < length ?Y"
    show "\<forall>c\<in>set (children (?Y ! k)). k < c \<and> c < length ?Y"
    proof (cases "k = ?i")
      case True
      show ?thesis
      proof
        fix c assume "c \<in> set (children (?Y ! k))"
        then have "c \<in> set (child_refs (Suc ?i) cs)" unfolding True Yi by simp
        from child_refs_bounds[OF this] show "k < c \<and> c < length ?Y"
          using True lenY by simp
      qed
    next
      case False
      then have "length ?S1 \<le> k \<and> k < length ?Y" using k by simp
      then show ?thesis using clY unfolding block_closed_def by blast
    qed
  qed
  from trY obtain ts where ts: "those (map (tree_of ?F ?Y) (child_refs (Suc ?i) cs)) = Some ts"
    and ots: "map outline_of ts = cs" unfolding lenS1 by blast
  have inY: "?i < length ?Y" using lenY by simp
  have "tree_of (Suc ?F) ?Y ?i = Some (MTree (?Y ! ?i) ts)"
    using inY ts by (simp add: Yi)
  moreover have "outline_of (MTree (?Y ! ?i) ts) = Outline t l cs"
  proof -
    have "ntext (?Y ! ?i) = t" "level (?Y ! ?i) = l"
      unfolding Yi by (simp_all add: createNode_def)
    then show ?thesis using ots by simp
  qed
  ultimately have g5: "\<exists>t'. tree_of (osize (Outline t l cs)) ?Y ?i = Some t' \<and> outline_of t' = Outline t l cs"
    by simp
  show ?case
    unfolding Y tree_added_def using g1 g2 g3 g4 g5 by blast
qed

subsection \<open>The serializer in terms of outlines\<close>

lemma concat_map_concat:
  "concat (map f (concat xss)) = concat (map (\<lambda>xs. concat (map f xs)) xss)"
  by (induction xss) simp_all

lemma concat_map_lines:
  "(\<And>c. c \<in> set cs \<Longrightarrow> f c = concat (map g (h c))) \<Longrightarrow>
   concat (map f cs) = concat (map g (concat (map h cs)))"
  by (induction cs) simp_all

lemma generateNodeMarkdown_lines:
  "canonical d (outline_of t) \<Longrightarrow>
   generateNodeMarkdown t d = concat (map (\<lambda>l. l @ [10]) (node_lines d (outline_of t)))"
proof (induction t arbitrary: d)
  case (MTree node cs)
  have lvl: "level node \<noteq> 0" and kids: "\<forall>c\<in>set cs. canonical (Suc d) (outline_of c)"
    using MTree.prems by (simp_all add: list_all_iff)
  have each: "\<And>c. c \<in> set cs \<Longrightarrow>
      generateNodeMarkdown c (Suc d) = concat (map (\<lambda>l. l @ [10]) (node_lines (Suc d) (outline_of c)))"
    using MTree.IH kids by blast
  have "set cs' \<subseteq> set cs \<Longrightarrow> concat (map (\<lambda>c. generateNodeMarkdown c (Suc d)) cs') =
        concat (map (\<lambda>l. l @ [10]) (concat (map (node_lines (Suc d)) (map outline_of cs'))))" for cs'
  proof (induction cs')
    case Nil
    then show ?case by simp
  next
    case (Cons c cs')
    then have "c \<in> set cs" and "set cs' \<subseteq> set cs" by simp_all
    then show ?case using each[of c] Cons.IH by simp
  qed
  then have kids_eq: "concat (map (\<lambda>c. generateNodeMarkdown c (Suc d)) cs) =
        concat (map (\<lambda>l. l @ [10]) (concat (map (node_lines (Suc d)) (map outline_of cs))))"
    by simp
  show ?case
    using lvl by (simp add: Let_def kids_eq comp_def)
qed

lemma node_lines_no_newline: "l \<in> set (node_lines d ol) \<Longrightarrow> 10 \<notin> set l"
proof (induction ol arbitrary: d l)
  case (Outline t lv cs)
  have nn: "\<And>x. x \<in> set (split_lines t) \<Longrightarrow> 10 \<notin> set x" by (rule split_lines_no_newline)
  have hdin: "hd (split_lines t) \<in> set (split_lines t)" using split_lines_nonempty by simp
  have tlin: "\<And>x. x \<in> set (tl (split_lines t)) \<Longrightarrow> x \<in> set (split_lines t)"
    by (rule list.set_sel(2)[OF split_lines_nonempty])
  from Outline.prems consider
      "l = replicate (4 * (d - 1)) 32 @ [42, 32] @ hd (split_lines t)"
    | x where "x \<in> set (tl (split_lines t))" "l = replicate (4 * (d - 1)) 32 @ [32, 32] @ x"
    | c where "c \<in> set cs" "l \<in> set (node_lines (Suc d) c)"
    by auto
  then show ?case
  proof cases
    case 1
    then show ?thesis using nn[OF hdin] by auto
  next
    case 2
    then show ?thesis using nn[OF tlin] by auto
  next
    case 3
    then show ?thesis using Outline.IH by blast
  qed
qed

lemma parse_items_lines:
  assumes "list_all (canonical (Suc d)) cs" "Suc d \<le> length (nodeStack s)"
  shows "allNodes (fold parseLine (concat (map (node_lines (Suc d)) cs)) s) =
           fold (\<lambda>c S'. add_tree c (nodeStack s ! d) S') cs (allNodes s) \<and>
         take (Suc d) (nodeStack (fold parseLine (concat (map (node_lines (Suc d)) cs)) s)) = take (Suc d) (nodeStack s) \<and>
         d < length (nodeStack (fold parseLine (concat (map (node_lines (Suc d)) cs)) s))"
  using assms
proof (induction cs arbitrary: s)
  case Nil
  then show ?case by simp
next
  case (Cons c cs)
  let ?s1 = "fold parseLine (node_lines (Suc d) c) s"
  have cok: "canonical (Suc d) c" and rest: "list_all (canonical (Suc d)) cs" using Cons.prems(1) by simp_all
  from parse_node_lines[OF cok Cons.prems(2)]
  have a: "allNodes ?s1 = add_tree c (nodeStack s ! d) (allNodes s)"
    and b: "take (Suc (Suc d)) (nodeStack ?s1) = take (Suc d) (nodeStack s) @ [length (allNodes s)]"
    and c: "Suc d < length (nodeStack ?s1)"
    by simp_all
  have len: "Suc d \<le> length (nodeStack ?s1)" using c by simp
  have "take (Suc d) (take (Suc (Suc d)) (nodeStack ?s1)) = take (Suc d) (take (Suc d) (nodeStack s) @ [length (allNodes s)])"
    using b by simp
  then have tk: "take (Suc d) (nodeStack ?s1) = take (Suc d) (nodeStack s)"
    using Cons.prems(2) by (simp add: min_def)
  have "nodeStack ?s1 ! d = take (Suc d) (nodeStack ?s1) ! d" by simp
  also have "\<dots> = nodeStack s ! d" unfolding tk by simp
  finally have q: "nodeStack ?s1 ! d = nodeStack s ! d" .
  from Cons.IH[OF rest len] a q tk show ?case by simp
qed

definition initialState :: "jsstring \<Rightarrow> ParseState" where
  "initialState filePath =
     \<lparr>allNodes = [createNode (getFileNameWithoutExtension filePath) 0], nodeStack = [0],
      maxLevel = 0, lastNode = None, lastIndentLength = 0\<rparr>"

lemma parseMarkdownContent_fold:
  "parseMarkdownContent content filePath =
     fold parseLine (split_lines (stripIdentifier content)) (initialState filePath)"
  by (simp add: parseMarkdownContent_def initialState_def Let_def)

definition document_of :: "outline list \<Rightarrow> jsstring" where
  "document_of os = MINDMAP_IDENTIFIER @ [10, 10] @ concat (map (\<lambda>l. l @ [10]) (concat (map (node_lines 1) os)))"

lemma node_lines_hd: "\<exists>r rest. node_lines 1 ol = (42 # r) # rest"
  by (cases ol) simp

lemma stripIdentifier_document:
  "stripIdentifier (document_of os) = concat (map (\<lambda>l. l @ [10]) (concat (map (node_lines 1) os)))"
proof -
  define body where "body = concat (map (\<lambda>l. l @ [10]) (concat (map (node_lines 1) os)))"
  have "body = [] \<or> hd body = 42"
  proof (cases os)
    case Nil
    then show ?thesis by (simp add: body_def)
  next
    case (Cons o1 rest)
    obtain r ls where "node_lines 1 o1 = (42 # r) # ls" using node_lines_hd by blast
    then show ?thesis using Cons by (simp add: body_def)
  qed
  moreover have "\<not> is_space 42" by (simp add: is_space_def)
  ultimately have "body = [] \<or> \<not> is_space (hd body)" by metis
  then have dw: "dropWhile is_space body = body" by (rule dropWhile_id)
  have sp: "is_space 10" by (simp add: is_space_def)
  have doc: "document_of os = str ''#mindmap'' @ [10, 10] @ body"
    by (simp add: document_of_def MINDMAP_IDENTIFIER_def body_def)
  have len8: "length (str ''#mindmap'') = 8" by (simp add: str_def)
  have "stripIdentifier (document_of os) = dropWhile is_space ([10, 10] @ body)"
    unfolding doc stripIdentifier_def using len8 by simp
  also have "\<dots> = body" using dw sp by simp
  finally show ?thesis unfolding body_def .
qed

lemma parse_document:
  assumes "list_all (canonical 1) os"
  shows "allNodes (parseMarkdownContent (document_of os) filePath) =
         fold (\<lambda>c S'. add_tree c 0 S') os [createNode (getFileNameWithoutExtension filePath) 0]"
proof -
  let ?L = "concat (map (node_lines 1) os)"
  have nn: "\<forall>l\<in>set ?L. 10 \<notin> set l" using node_lines_no_newline by auto
  have sp: "split_lines (stripIdentifier (document_of os)) = ?L @ [[]]"
    unfolding stripIdentifier_document by (rule split_terminated[OF nn])
  have blank: "parseLine [] s = s" for s by (simp add: parseLine_def trim_def)
  have st: "Suc 0 \<le> length (nodeStack (initialState filePath))" by (simp add: initialState_def)
  from parse_items_lines[of 0 os, OF _ st] assms
  have "allNodes (fold parseLine ?L (initialState filePath)) =
        fold (\<lambda>c S'. add_tree c 0 S') os (allNodes (initialState filePath))"
    by (simp add: initialState_def)
  then show ?thesis
    unfolding parseMarkdownContent_fold sp by (simp add: blank initialState_def)
qed

lemma rootTree_document:
  assumes "list_all (canonical 1) os"
  shows "\<exists>t. rootTree (parseMarkdownContent (document_of os) filePath) = Some t \<and>
             outline_of t = Outline (getFileNameWithoutExtension filePath) 0 os"
proof -
  let ?r = "createNode (getFileNameWithoutExtension filePath) 0"
  let ?Y = "fold (\<lambda>c S'. add_tree c 0 S') os [?r]"
  let ?F = "sum_list (map osize os)"
  have B: "items_added os 0 [?r] ?Y"
    by (rule fold_items_added) (simp_all add: add_tree_added)
  note lenY = items_addedD(1)[OF B] and qY = items_addedD(3)[OF B] and trY = items_addedD(5)[OF B]
  from trY obtain ts where ts: "those (map (tree_of ?F ?Y) (child_refs (Suc 0) os)) = Some ts"
    and ots: "map outline_of ts = os" by auto
  have Y0: "?Y ! 0 = ?r\<lparr>children := child_refs (Suc 0) os\<rparr>"
    using qY by (simp add: createNode_def)
  have len: "length ?Y = Suc ?F" using lenY by simp
  have "tree_of (Suc ?F) ?Y 0 = Some (MTree (?Y ! 0) ts)"
    using len ts by (simp add: Y0)
  moreover have "ntext (?Y ! 0) = getFileNameWithoutExtension filePath" "level (?Y ! 0) = 0"
    unfolding Y0 by (simp_all add: createNode_def)
  ultimately show ?thesis
    unfolding rootTree_def parse_document[OF assms] len using ots by simp
qed

definition wellformed :: "mtree \<Rightarrow> bool" where
  "wellformed t \<longleftrightarrow> list_all (canonical 1) (map outline_of (subtrees t))"

lemma generateMarkdownFromNodes_document:
  assumes "wellformed t"
  shows "generateMarkdownFromNodes t = document_of (map outline_of (subtrees t))"
proof -
  have "generateNodeMarkdown c (level (tnode c)) = concat (map (\<lambda>l. l @ [10]) (node_lines 1 (outline_of c)))"
    if "c \<in> set (subtrees t)" for c
  proof -
    have ok: "canonical 1 (outline_of c)" using assms that by (simp add: wellformed_def list_all_iff)
    then have "level (tnode c) = 1" by (cases c) simp
    then show ?thesis using generateNodeMarkdown_lines[OF ok] by simp
  qed
  then have "concat (map (\<lambda>child. generateNodeMarkdown child (level (tnode child))) (subtrees t)) =
             concat (map (\<lambda>l. l @ [10]) (concat (map (\<lambda>c. node_lines 1 (outline_of c)) (subtrees t))))"
    by (rule concat_map_lines)
  then show ?thesis
    by (simp add: generateMarkdownFromNodes_def document_of_def comp_def)
qed

subsection \<open>The root cell\<close>

definition root_inv :: "jsstring \<Rightarrow> ParseState \<Rightarrow> bool" where
  "root_inv fn st \<longleftrightarrow>
     allNodes st \<noteq> [] \<and> (\<forall>r. lastNode st = Some r \<longrightarrow> 0 < r) \<and>
     ntext (allNodes st ! 0) = fn \<and> level (allNodes st ! 0) = 0"

lemma addListItem_root: "root_inv fn st \<Longrightarrow> root_inv fn (addListItem item st)"
proof -
  assume a: "root_inv fn st"
  then obtain c cs where S: "allNodes st = c # cs" by (cases "allNodes st") (auto simp: root_inv_def)
  have c: "ntext c = fn" "level c = 0" using a S by (simp_all add: root_inv_def)
  show ?thesis
    unfolding root_inv_def addListItem_def Let_def
    using c by (auto simp: S nth_append nth_list_update split: if_splits nat.splits)
qed

lemma addContinuation_root: "root_inv fn st \<Longrightarrow> root_inv fn (addContinuation line st)"
  unfolding root_inv_def addContinuation_def Let_def
  by (auto split: option.splits)

lemma parseLine_root: "root_inv fn st \<Longrightarrow> root_inv fn (parseLine line st)"
  by (simp add: parseLine_def addListItem_root addContinuation_root split: option.splits)

lemma fold_parseLine_root: "root_inv fn st \<Longrightarrow> root_inv fn (fold parseLine ls st)"
  by (induction ls arbitrary: st) (simp_all add: parseLine_root)

lemma parse_root_cell:
  "ntext (allNodes (parseMarkdownContent content filePath) ! 0) = getFileNameWithoutExtension filePath \<and>
   level (allNodes (parseMarkdownContent content filePath) ! 0) = 0"
proof -
  have "root_inv (getFileNameWithoutExtension filePath) (initialState filePath)"
    by (simp add: root_inv_def initialState_def createNode_def)
  then have "root_inv (getFileNameWithoutExtension filePath) (parseMarkdownContent content filePath)"
    unfolding parseMarkdownContent_fold by (rule fold_parseLine_root)
  then show ?thesis by (simp add: root_inv_def)
qed

lemma rootTree_tnode: "rootTree st = Some t \<Longrightarrow> tnode t = allNodes st ! 0"
  by (cases "length (allNodes st)") (auto simp: rootTree_def split: if_splits)

lemma roundtrip_core:
  assumes "rootTree (parseMarkdownContent content filePath) = Some t" and "wellformed t"
  shows "\<exists>t'. rootTree (parseMarkdownContent (generateMarkdownFromNodes t) filePath) = Some t' \<and>
              outline_of t' = outline_of t \<and>
              generateMarkdownFromNodes t' = generateMarkdownFromNodes t"
proof -
  let ?os = "map outline_of (subtrees t)"
  have ok: "list_all (canonical 1) ?os" using assms(2) by (simp add: wellformed_def)
  have doc: "generateMarkdownFromNodes t = document_of ?os"
    by (rule generateMarkdownFromNodes_document[OF assms(2)])
  from rootTree_document[OF ok, of filePath] obtain t' where
    t': "rootTree (parseMarkdownContent (document_of ?os) filePath) = Some t'"
    and o': "outline_of t' = Outline (getFileNameWithoutExtension filePath) 0 ?os" by blast
  have root: "ntext (tnode t) = getFileNameWithoutExtension filePath" "level (tnode t) = 0"
    using rootTree_tnode[OF assms(1)] parse_root_cell[of content filePath] by simp_all
  have ot: "outline_of t = Outline (getFileNameWithoutExtension filePath) 0 ?os"
    using root by (cases t) simp
  have sub: "map outline_of (subtrees t') = ?os" using o' by (cases t') simp
  have "wellformed t'" using ok unfolding wellformed_def sub .
  then have "generateMarkdownFromNodes t' = document_of ?os"
    using generateMarkdownFromNodes_document[of t'] sub by simp
  then show ?thesis using t' o' ot doc by simp
qed

subsection \<open>Levels and parents\<close>

definition line_item :: "jsstring \<Rightarrow> ListItem option" where
  "line_item line = (if trim line \<noteq> [] \<and> isListItem line then parseListItem line else None)"

definition item_levels :: "jsstring \<Rightarrow> nat list" where
  "item_levels content =
     map li_level (List.map_filter line_item (split_lines (stripIdentifier content)))"

fun steps_ok :: "nat \<Rightarrow> nat list \<Rightarrow> bool" where
  "steps_ok k [] = True"
| "steps_ok k (l # ls) = (l < k \<and> steps_ok (l + 2) ls)"

definition level_inv :: "ParseState \<Rightarrow> bool" where
  "level_inv st \<longleftrightarrow>
     (\<forall>j<length (nodeStack st). nodeStack st ! j < length (allNodes st) \<and>
          level (allNodes st ! (nodeStack st ! j)) = j) \<and>
     (\<forall>i. 0 < i \<and> i < length (allNodes st) \<longrightarrow>
          (\<exists>p. parent (allNodes st ! i) = Some p \<and> p < i \<and>
               level (allNodes st ! i) = level (allNodes st ! p) + 1)) \<and>
     (\<forall>r. lastNode st = Some r \<longrightarrow> r < length (allNodes st))"

lemma update_text_cell:
  "level (S[r := (S ! r)\<lparr>ntext := x\<rparr>] ! k) = level (S ! k) \<and>
   parent (S[r := (S ! r)\<lparr>ntext := x\<rparr>] ! k) = parent (S ! k)"
proof (cases "k = r \<and> r < length S")
  case True
  then show ?thesis by simp
next
  case False
  then show ?thesis by (cases "r < length S") (simp_all add: list_update_beyond)
qed

lemma update_text_level_inv:
  assumes "level_inv st"
  shows "level_inv (st\<lparr>allNodes := (allNodes st)[r := (allNodes st ! r)\<lparr>ntext := x\<rparr>]\<rparr>)"
  using assms unfolding level_inv_def by (simp add: update_text_cell)

lemma addContinuation_level: "level_inv st \<Longrightarrow> level_inv (addContinuation line st) \<and>
    nodeStack (addContinuation line st) = nodeStack st"
  unfolding addContinuation_def Let_def
  by (simp add: update_text_level_inv split: option.splits)

lemma addListItem_level:
  assumes "level_inv st" "li_level item < length (nodeStack st)"
  shows "level_inv (addListItem item st) \<and> length (nodeStack (addListItem item st)) = li_level item + 2"
proof -
  let ?l = "li_level item"
  let ?S = "allNodes st"
  let ?n = "length ?S"
  let ?stack1 = "take (Suc ?l) (nodeStack st)"
  let ?p = "nodeStack st ! ?l"
  have pop: "popStack (Suc ?l) (nodeStack st) = ?stack1"
    by (simp add: popStack_def)
  have ne: "?stack1 \<noteq> []" using assms(2) by (cases "nodeStack st") auto
  have last: "last ?stack1 = ?p" using assms(2) by (simp add: take_Suc_conv_app_nth)
  have pv: "?p < ?n" and pl: "level (?S ! ?p) = ?l"
    using assms unfolding level_inv_def by blast+
  define S1 where "S1 = ?S[?p := (?S ! ?p)\<lparr>children := children (?S ! ?p) @ [?n]\<rparr>]"
  define new where "new = (createNode (li_content item) (?l + 1))\<lparr>parent := Some ?p\<rparr>"
  have res: "addListItem item st =
      \<lparr>allNodes = S1 @ [new], nodeStack = ?stack1 @ [?n],
       maxLevel = max (maxLevel st) (?l + 1), lastNode = Some ?n,
       lastIndentLength = length (li_indent item)\<rparr>"
    using ne by (simp add: addListItem_def Let_def pop last S1_def new_def createNode_def)
  have lenS1: "length S1 = ?n" by (simp add: S1_def)
  have lvS1: "level (S1 ! k) = level (?S ! k)" for k
    using pv by (cases "k = ?p") (simp_all add: S1_def)
  have paS1: "parent (S1 ! k) = parent (?S ! k)" for k
    using pv by (cases "k = ?p") (simp_all add: S1_def)
  have lvnew: "level new = ?l + 1" and panew: "parent new = Some ?p"
    by (simp_all add: new_def createNode_def)
  have cell_old: "k < ?n \<Longrightarrow> level ((S1 @ [new]) ! k) = level (?S ! k) \<and> parent ((S1 @ [new]) ! k) = parent (?S ! k)" for k
    by (simp add: nth_append lenS1 lvS1 paS1)
  have cell_new: "(S1 @ [new]) ! ?n = new" by (simp add: nth_append lenS1)
  have g1: "\<forall>j<length (?stack1 @ [?n]). (?stack1 @ [?n]) ! j < length (S1 @ [new]) \<and>
          level ((S1 @ [new]) ! ((?stack1 @ [?n]) ! j)) = j"
  proof (intro allI impI)
    fix j assume j: "j < length (?stack1 @ [?n])"
    have len1: "length ?stack1 = Suc ?l" using assms(2) by simp
    show "(?stack1 @ [?n]) ! j < length (S1 @ [new]) \<and> level ((S1 @ [new]) ! ((?stack1 @ [?n]) ! j)) = j"
    proof (cases "j < Suc ?l")
      case True
      then have e: "(?stack1 @ [?n]) ! j = nodeStack st ! j" using assms(2) by (simp add: nth_append)
      have jj: "j < length (nodeStack st)" using True assms(2) by simp
      then have v: "nodeStack st ! j < ?n" and lv: "level (?S ! (nodeStack st ! j)) = j"
        using assms(1) unfolding level_inv_def by blast+
      show ?thesis unfolding e using v lv cell_old[OF v] by (simp add: lenS1)
    next
      case False
      then have jl: "j = Suc ?l" using j len1 by simp
      then have e: "(?stack1 @ [?n]) ! j = ?n" using assms(2) by (simp add: nth_append)
      show ?thesis unfolding e cell_new using lvnew jl by (simp add: lenS1)
    qed
  qed
  have g2: "\<forall>i. 0 < i \<and> i < length (S1 @ [new]) \<longrightarrow>
          (\<exists>p. parent ((S1 @ [new]) ! i) = Some p \<and> p < i \<and>
               level ((S1 @ [new]) ! i) = level ((S1 @ [new]) ! p) + 1)"
  proof (intro allI impI)
    fix i assume i: "0 < i \<and> i < length (S1 @ [new])"
    show "\<exists>p. parent ((S1 @ [new]) ! i) = Some p \<and> p < i \<and>
               level ((S1 @ [new]) ! i) = level ((S1 @ [new]) ! p) + 1"
    proof (cases "i < ?n")
      case True
      then obtain p where p: "parent (?S ! i) = Some p" "p < i" "level (?S ! i) = level (?S ! p) + 1"
        using assms(1) i unfolding level_inv_def by blast
      have pn: "p < ?n" using p(2) True by simp
      show ?thesis using p cell_old[OF True] cell_old[OF pn] by simp
    next
      case False
      then have e: "i = ?n" using i by (simp add: lenS1)
      show ?thesis unfolding e cell_new using panew lvnew pv pl cell_old[OF pv] by simp
    qed
  qed
  show ?thesis
    unfolding res level_inv_def using g1 g2 assms(2) by (simp add: lenS1)
qed

lemma fold_parseLine_level:
  assumes "level_inv st" "steps_ok (length (nodeStack st)) (map li_level (List.map_filter line_item ls))"
  shows "level_inv (fold parseLine ls st)"
  using assms
proof (induction ls arbitrary: st)
  case Nil
  then show ?case by simp
next
  case (Cons line ls)
  show ?case
  proof (cases "line_item line")
    case None
    then have mf: "List.map_filter line_item (line # ls) = List.map_filter line_item ls"
      by simp
    have "level_inv (parseLine line st) \<and> nodeStack (parseLine line st) = nodeStack st"
    proof (cases "trim line = []")
      case True
      then show ?thesis using Cons.prems(1) by (simp add: parseLine_def)
    next
      case False
      show ?thesis
      proof (cases "isListItem line")
        case True
        then have "parseListItem line = None" using None False by (simp add: line_item_def)
        then show ?thesis using Cons.prems(1) True False by (simp add: parseLine_def)
      next
        case False
        then show ?thesis
          using addContinuation_level[OF Cons.prems(1)] \<open>trim line \<noteq> []\<close> by (simp add: parseLine_def)
      qed
    qed
    then show ?thesis using Cons.IH[of "parseLine line st"] Cons.prems(2) mf by simp
  next
    case (Some item)
    then have mf: "List.map_filter line_item (line # ls) = item # List.map_filter line_item ls"
      by simp
    have pl: "parseLine line st = addListItem item st"
      using Some by (simp add: line_item_def parseLine_def split: if_splits)
    have lt: "li_level item < length (nodeStack st)"
      and rest: "steps_ok (li_level item + 2) (map li_level (List.map_filter line_item ls))"
      using Cons.prems(2) mf by simp_all
    from addListItem_level[OF Cons.prems(1) lt]
    show ?thesis using Cons.IH[of "addListItem item st"] rest pl by simp
  qed
qed

lemma parse_levels:
  assumes "steps_ok 1 (item_levels content)"
  shows "level_inv (parseMarkdownContent content filePath)"
proof -
  have "level_inv (initialState filePath)"
    by (auto simp: level_inv_def initialState_def createNode_def)
  moreover have "steps_ok (length (nodeStack (initialState filePath)))
      (map li_level (List.map_filter line_item (split_lines (stripIdentifier content))))"
    using assms by (simp add: item_levels_def initialState_def)
  ultimately show ?thesis
    unfolding parseMarkdownContent_fold by (rule fold_parseLine_level)
qed

subsection \<open>The parser always returns a tree\<close>

definition store_inv :: "ParseState \<Rightarrow> bool" where
  "store_inv st \<longleftrightarrow>
     allNodes st \<noteq> [] \<and>
     block_closed (allNodes st) 0 (length (allNodes st)) \<and>
     (\<forall>x\<in>set (nodeStack st). x < length (allNodes st))"

lemma those_all_some:
  "(\<And>x. x \<in> set xs \<Longrightarrow> \<exists>y. g x = Some y) \<Longrightarrow> \<exists>ys. those (map g xs) = Some ys"
proof (induction xs)
  case Nil
  then show ?case by simp
next
  case (Cons x xs)
  from Cons.prems[of x] obtain y where y: "g x = Some y" by auto
  from Cons.IH Cons.prems obtain ys where "those (map g xs) = Some ys" by auto
  with y show ?case by simp
qed

lemma tree_of_total:
  assumes "block_closed S 0 (length S)"
  shows "j < length S \<Longrightarrow> length S \<le> f + j \<Longrightarrow> \<exists>t. tree_of f S j = Some t"
proof (induction f arbitrary: j)
  case 0
  then show ?case by simp
next
  case (Suc f)
  have "\<exists>y. tree_of f S c = Some y" if "c \<in> set (children (S ! j))" for c
  proof -
    have "j < c \<and> c < length S" using assms Suc.prems(1) that unfolding block_closed_def by blast
    then show ?thesis using Suc.prems(2) by (intro Suc.IH) simp_all
  qed
  then obtain ts where "those (map (tree_of f S) (children (S ! j))) = Some ts"
    using those_all_some[of "children (S ! j)" "tree_of f S"] by blast
  then show ?case using Suc.prems(1) by simp
qed

lemma addListItem_store: "store_inv st \<Longrightarrow> store_inv (addListItem item st)"
proof -
  assume a: "store_inv st"
  let ?S = "allNodes st"
  let ?n = "length ?S"
  let ?stack1 = "popStack (li_level item + 1) (nodeStack st)"
  have ne: "?S \<noteq> []" and cl: "block_closed ?S 0 ?n" and sv: "\<forall>x\<in>set (nodeStack st). x < ?n"
    using a by (simp_all add: store_inv_def)
  have sub: "set ?stack1 \<subseteq> set (nodeStack st)"
    by (auto simp: popStack_def dest: in_set_takeD)
  show ?thesis
  proof (cases "?stack1 = []")
    case True
    have res: "addListItem item st =
      \<lparr>allNodes = ?S @ [createNode (li_content item) (li_level item + 1)], nodeStack = [?n],
       maxLevel = max (maxLevel st) (li_level item + 1), lastNode = Some ?n,
       lastIndentLength = length (li_indent item)\<rparr>"
      using True by (simp add: addListItem_def Let_def createNode_def)
    have "block_closed (?S @ [createNode (li_content item) (li_level item + 1)]) 0 (Suc ?n)"
      unfolding block_closed_def
    proof (intro allI impI ballI)
      fix k c assume k: "0 \<le> k \<and> k < Suc ?n"
        and c: "c \<in> set (children ((?S @ [createNode (li_content item) (li_level item + 1)]) ! k))"
      show "k < c \<and> c < Suc ?n"
      proof (cases "k < ?n")
        case True
        then have "c \<in> set (children (?S ! k))" using c by (simp add: nth_append)
        then have "k < c \<and> c < ?n" using cl True unfolding block_closed_def by blast
        then show ?thesis by simp
      next
        case False
        then have "k = ?n" using k by simp
        then show ?thesis using c by (simp add: nth_append createNode_def)
      qed
    qed
    then show ?thesis unfolding res store_inv_def by simp
  next
    case False
    let ?p = "last ?stack1"
    let ?S1 = "?S[?p := (?S ! ?p)\<lparr>children := children (?S ! ?p) @ [?n]\<rparr>]"
    let ?new = "(createNode (li_content item) (li_level item + 1))\<lparr>parent := Some ?p\<rparr>"
    have "?p \<in> set ?stack1" using False by (rule last_in_set)
    then have "?p \<in> set (nodeStack st)" using sub by blast
    then have pv: "?p < ?n" using sv by blast
    have res: "addListItem item st =
      \<lparr>allNodes = ?S1 @ [?new], nodeStack = ?stack1 @ [?n],
       maxLevel = max (maxLevel st) (li_level item + 1), lastNode = Some ?n,
       lastIndentLength = length (li_indent item)\<rparr>"
      using False by (simp add: addListItem_def Let_def createNode_def)
    have "block_closed (?S1 @ [?new]) 0 (Suc ?n)"
      unfolding block_closed_def
    proof (intro allI impI ballI)
      fix k c assume k: "0 \<le> k \<and> k < Suc ?n"
        and c: "c \<in> set (children ((?S1 @ [?new]) ! k))"
      show "k < c \<and> c < Suc ?n"
      proof (cases "k < ?n")
        case True
        show ?thesis
        proof (cases "k = ?p")
          case True
          then have "c \<in> set (children (?S ! ?p)) \<or> c = ?n"
            using c pv by (auto simp: nth_append)
          moreover have "\<And>c'. c' \<in> set (children (?S ! ?p)) \<Longrightarrow> ?p < c' \<and> c' < ?n"
            using cl pv unfolding block_closed_def by blast
          ultimately have "?p < c \<and> c < Suc ?n" using pv by (metis less_Suc_eq)
          then show ?thesis using True by simp
        next
          case False
          then have "c \<in> set (children (?S ! k))" using c True by (simp add: nth_append)
          then have "k < c \<and> c < ?n" using cl True unfolding block_closed_def by blast
          then show ?thesis by simp
        qed
      next
        case False
        then have "k = ?n" using k by simp
        then show ?thesis using c by (simp add: nth_append createNode_def)
      qed
    qed
    moreover have "\<forall>x\<in>set (?stack1 @ [?n]). x < Suc ?n"
      using sub sv by (auto simp: less_Suc_eq)
    ultimately show ?thesis unfolding res store_inv_def by simp
  qed
qed

lemma update_text_children:
  "children (S[r := (S ! r)\<lparr>ntext := x\<rparr>] ! k) = children (S ! k)"
proof (cases "k = r \<and> r < length S")
  case True
  then show ?thesis by simp
next
  case False
  then show ?thesis by (cases "r < length S") (simp_all add: list_update_beyond)
qed

lemma update_text_store:
  assumes "store_inv st"
  shows "store_inv (st\<lparr>allNodes := (allNodes st)[r := (allNodes st ! r)\<lparr>ntext := x\<rparr>]\<rparr>)"
proof -
  let ?S = "allNodes st"
  let ?S' = "?S[r := (?S ! r)\<lparr>ntext := x\<rparr>]"
  have ne: "?S \<noteq> []" and cl: "block_closed ?S 0 (length ?S)"
    and sv: "\<forall>x\<in>set (nodeStack st). x < length ?S"
    using assms by (simp_all add: store_inv_def)
  have len: "length ?S' = length ?S" by simp
  have "block_closed ?S' 0 (length ?S')"
    unfolding len using cl unfolding block_closed_def update_text_children .
  then show ?thesis unfolding store_inv_def using ne sv by simp
qed

lemma addContinuation_store: "store_inv st \<Longrightarrow> store_inv (addContinuation line st)"
  unfolding addContinuation_def Let_def
  by (simp add: update_text_store split: option.splits)

lemma parseLine_store: "store_inv st \<Longrightarrow> store_inv (parseLine line st)"
  by (simp add: parseLine_def addListItem_store addContinuation_store split: option.splits)

lemma fold_parseLine_store: "store_inv st \<Longrightarrow> store_inv (fold parseLine ls st)"
  by (induction ls arbitrary: st) (simp_all add: parseLine_store)

lemma parse_tree_exists: "\<exists>t. rootTree (parseMarkdownContent content filePath) = Some t"
proof -
  have "store_inv (initialState filePath)"
    by (simp add: store_inv_def initialState_def block_closed_def createNode_def)
  then have "store_inv (parseMarkdownContent content filePath)"
    unfolding parseMarkdownContent_fold by (rule fold_parseLine_store)
  then show ?thesis
    unfolding rootTree_def store_inv_def
    by (intro tree_of_total) simp_all
qed


subsection \<open>A small hierarchy to run the layout on\<close>

definition newNode :: "string \<Rightarrow> nat \<Rightarrow> MindMapNode" where
  "newNode t l = \<lparr>ntext = str t, level = l, parent = None, children = [], color = None,
     icon = None, link = None, expanded = True, selected = None, hovered = None,
     node_x = None, node_y = None, nodeWidth = None, nodeHeight = None,
     subtreeWidth = None, subtreeHeight = None\<rparr>"

definition demo_dims :: "nat \<Rightarrow> jsstring \<Rightarrow> NodeDimensions" where
  "demo_dims d s = \<lparr>width = 10 * real (length s) + 20, height = (if d = 0 then 50 else 30)\<rparr>"

definition demo_tree :: hnode where
  "demo_tree =
     HNode 0 (newNode ''root'' 0) None None
       [HNode 1 (newNode ''A'' 1) None None
          [HNode 2 (newNode ''B'' 2) None None [], HNode 2 (newNode ''C'' 2) None None []],
        HNode 1 (newNode ''D'' 1) None None []]"

lemmas demo_defs = demo_tree_def demo_dims_def newNode_def str_def createRecursiveTreeLayout_def
  or0_def horizontalSpacing_at_def

subsection \<open>The layout claims\<close>

text \<open>
  C2. After the bottom-up pass every node carries its own box (\<open>nodeWidth\<close>, \<open>nodeHeight\<close>)
  from the measuring callback; a leaf has \<open>subtreeWidth\<close> and \<open>subtreeHeight\<close> equal to its box,
  and a branch has \<open>subtreeWidth = max (box width) (max of the children's subtreeWidth)\<close> and
  \<open>subtreeHeight = max (box height) (sum of the children's subtreeHeight + (childCount - 1) * 10)\<close>.
\<close>

theorem subtree_dimensions_after_pass1:
  "m \<in> set (nodes_of (calculateAllSubtreeDimensions cb t)) \<Longrightarrow>
   nodeWidth (data m) = Some (width (cb (depth m) (ntext (data m)))) \<and>
   nodeHeight (data m) = Some (height (cb (depth m) (ntext (data m)))) \<and>
   (hchildren m = [] \<longrightarrow>
      subtreeWidth (data m) = nodeWidth (data m) \<and> subtreeHeight (data m) = nodeHeight (data m)) \<and>
   (hchildren m \<noteq> [] \<longrightarrow>
      subtreeWidth (data m) =
        Some (max (width (cb (depth m) (ntext (data m)))) (Max (set (map stw (hchildren m))))) \<and>
      subtreeHeight (data m) =
        Some (max (height (cb (depth m) (ntext (data m))))
                  (sum_list (map sth (hchildren m)) + (real (length (hchildren m)) - 1) * 10)))"
  using calc_all_ok[of m cb t] by (simp add: dims_ok_def Let_def)

theorem subtree_dimensions_after_pass1_witness:
  "(let r = calculateAllSubtreeDimensions demo_dims demo_tree; a = hchildren r ! 0; d = hchildren r ! 1
    in a \<in> set (nodes_of r) \<and> d \<in> set (nodes_of r) \<and>
       hchildren a \<noteq> [] \<and> subtreeWidth (data a) = Some 30 \<and> subtreeHeight (data a) = Some 70 \<and>
       hchildren d = [] \<and> subtreeWidth (data d) = Some 30 \<and> subtreeHeight (data d) = Some 30)"
proof -
  let ?r = "calculateAllSubtreeDimensions demo_dims demo_tree"
  have a: "hchildren ?r ! 0 \<in> set (nodes_of ?r)" and d: "hchildren ?r ! 1 \<in> set (nodes_of ?r)"
    by (simp_all add: demo_defs Let_def)
  show ?thesis
    using subtree_dimensions_after_pass1[OF a] subtree_dimensions_after_pass1[OF d] a d
    by (simp add: demo_defs Let_def sth_def stw_def)
qed

text \<open>
  C3. After the top-down pass, for every node \<open>p\<close> with children: all children have the same
  horizontal position \<open>y = p.y + p.nodeWidth + horizontalSpacing\<close>, the spacing being 80 below
  the root and 30 below every deeper node; the group of children is centred on \<open>p.x\<close> (it
  spans from \<open>p.x - total / 2\<close> to \<open>p.x + total / 2\<close>), the first child's centre is
  \<open>p.x - total / 2 + firstChild.subtreeHeight / 2\<close>, and each next child starts the previous
  child's subtreeHeight plus the gap of 10 below the start of the previous one.
\<close>

theorem children_positions_after_pass2:
  assumes "p \<in> set (nodes_of (setNodePositionsTopDown cb t x0 y0))" and "hchildren p \<noteq> []"
  shows "(\<forall>c\<in>set (hchildren p).
            pos_y c = Some (or0 (pos_y p) + or0 (nodeWidth (data p)) + horizontalSpacing_at (depth p))) \<and>
         horizontalSpacing_at 0 = 80 \<and> (\<forall>d>0. horizontalSpacing_at d = 30) \<and>
         pos_x (hd (hchildren p)) =
            Some (or0 (pos_x p) - totalChildrenHeight p / 2 + sth (hd (hchildren p)) / 2) \<and>
         (\<forall>i. Suc i < length (hchildren p) \<longrightarrow>
            top_edge (hchildren p ! Suc i) = top_edge (hchildren p ! i) + sth (hchildren p ! i) + 10) \<and>
         top_edge (hd (hchildren p)) = or0 (pos_x p) - totalChildrenHeight p / 2 \<and>
         bottom_edge (last (hchildren p)) = or0 (pos_x p) + totalChildrenHeight p / 2"
proof -
  from setPos_nodes[OF assms(1)] obtain n x1 y1 where
    p: "p = setNodePositionsTopDown cb n x1 y1" by blast
  have ne: "hchildren n \<noteq> []"
    using assms(2) unfolding p setPos_children
    by (metis length_0_conv placeChildren_length)
  note f = setPos_facts[OF ne, of cb x1 y1, folded p]
  have "top_edge (hd (hchildren p)) = or0 (pos_x p) - totalChildrenHeight p / 2"
    using f(2) by (simp add: top_edge_def or0_def)
  with f show ?thesis by (simp add: horizontalSpacing_at_def)
qed

theorem children_positions_after_pass2_witness:
  "(let r = setNodePositionsTopDown demo_dims (calculateAllSubtreeDimensions demo_dims demo_tree) 100 100;
        a = hchildren r ! 0
    in r \<in> set (nodes_of r) \<and> hchildren r \<noteq> [] \<and> a \<in> set (nodes_of r) \<and> hchildren a \<noteq> [] \<and>
       map pos_y (hchildren r) = [Some 240, Some 240] \<and>
       map pos_x (hchildren r) = [Some 80, Some 140] \<and>
       map pos_y (hchildren a) = [Some 300, Some 300] \<and>
       map pos_x (hchildren a) = [Some 60, Some 100])"
proof -
  let ?r = "setNodePositionsTopDown demo_dims (calculateAllSubtreeDimensions demo_dims demo_tree) 100 100"
  have r: "?r \<in> set (nodes_of ?r)" by (rule nodes_of_self)
  have rne: "hchildren ?r \<noteq> []" by (simp add: demo_defs Let_def)
  have a: "hchildren ?r ! 0 \<in> set (nodes_of ?r)" by (simp add: demo_defs Let_def)
  have ane: "hchildren (hchildren ?r ! 0) \<noteq> []" by (simp add: demo_defs Let_def)
  show ?thesis
    using children_positions_after_pass2[OF r rne] children_positions_after_pass2[OF a ane] r rne a ane
    by (simp add: demo_defs Let_def)
qed

text \<open>
  C4. After a full layout pass (both passes, with a measuring callback that never returns a
  negative height), the vertical spans \<open>[x - subtreeHeight / 2, x + subtreeHeight / 2]\<close> of two
  distinct children of the same node do not overlap: the earlier child's span ends strictly
  above the start of the later child's span.
\<close>

theorem siblings_do_not_overlap:
  assumes "\<forall>d s. 0 \<le> height (cb d s)"
    and "p \<in> set (nodes_of (createRecursiveTreeLayout cb t))"
    and "i < j" and "j < length (hchildren p)"
  shows "or0 (pos_x (hchildren p ! i)) + or0 (subtreeHeight (data (hchildren p ! i))) / 2
         < or0 (pos_x (hchildren p ! j)) - or0 (subtreeHeight (data (hchildren p ! j))) / 2"
proof -
  let ?t1 = "calculateAllSubtreeDimensions cb t"
  from setPos_nodes[OF assms(2)[unfolded createRecursiveTreeLayout_def]] obtain n x1 y1 where
    n: "n \<in> set (nodes_of ?t1)" and p: "p = setNodePositionsTopDown cb n x1 y1" by blast
  let ?cs = "hchildren n"
  have nonneg: "\<forall>c\<in>set ?cs. 0 \<le> sth c"
  proof
    fix c assume c: "c \<in> set ?cs"
    have "c \<in> set (nodes_of ?t1)"
      using nodes_of_trans[OF n nodes_of_child[OF c nodes_of_self]] .
    then have ok: "dims_ok cb c" by (rule calc_all_ok)
    show "0 \<le> sth c"
    proof (cases "hchildren c = []")
      case True
      with ok assms(1) show ?thesis by (simp add: dims_ok_def Let_def sth_def or0_def)
    next
      case False
      with ok have "sth c = max (height (cb (depth c) (ntext (data c))))
                       (sum_list (map sth (hchildren c)) + (real (length (hchildren c)) - 1) * 10)"
        by (simp add: dims_ok_def Let_def sth_def or0_def)
      with assms(1) show ?thesis by (simp add: le_max_iff_disj)
    qed
  qed
  obtain cy cur where ch: "hchildren p = placeChildren cb cy cur ?cs"
    unfolding p setPos_children by blast
  have len: "length (hchildren p) = length ?cs" by (simp add: ch placeChildren_length)
  have j: "j < length ?cs" and i: "i < length ?cs" using assms(3,4) len by simp_all
  have "bottom_edge (hchildren p ! i) = cur + offset_before ?cs i + sth (?cs ! i)"
    using placed_top_edge[OF i, of cb cy cur] placed_sth[OF i, of cb cy cur]
    by (simp add: ch bottom_edge_def top_edge_def)
  moreover have "top_edge (hchildren p ! j) = cur + offset_before ?cs j"
    by (simp add: ch placed_top_edge[OF j])
  moreover have "offset_before ?cs i + sth (?cs ! i) + 10 \<le> offset_before ?cs j"
    using offset_before_mono[OF nonneg assms(3)] j by simp
  ultimately have "bottom_edge (hchildren p ! i) < top_edge (hchildren p ! j)" by simp
  then show ?thesis by (simp add: bottom_edge_def top_edge_def sth_def)
qed

theorem siblings_do_not_overlap_witness:
  "(let r = createRecursiveTreeLayout demo_dims demo_tree
    in (\<forall>d s. 0 \<le> height (demo_dims d s)) \<and> r \<in> set (nodes_of r) \<and>
       (0::nat) < 1 \<and> 1 < length (hchildren r) \<and>
       or0 (pos_x (hchildren r ! 0)) + or0 (subtreeHeight (data (hchildren r ! 0))) / 2 = 115 \<and>
       or0 (pos_x (hchildren r ! 1)) - or0 (subtreeHeight (data (hchildren r ! 1))) / 2 = 125)"
proof -
  let ?r = "createRecursiveTreeLayout demo_dims demo_tree"
  have h: "\<forall>d s. 0 \<le> height (demo_dims d s)" by (simp add: demo_dims_def)
  have r: "?r \<in> set (nodes_of ?r)" by (rule nodes_of_self)
  have l: "1 < length (hchildren ?r)" by (simp add: demo_defs Let_def)
  show ?thesis
    using siblings_do_not_overlap[OF h r zero_less_one l] h r l
    by (simp add: demo_defs Let_def)
qed

text \<open>
  C10. The layout computation (dimension pass, then position pass) writes only the fields
  \<open>nodeWidth\<close>, \<open>nodeHeight\<close>, \<open>subtreeWidth\<close>, \<open>subtreeHeight\<close> of each node's data and the
  coordinates of the hierarchy nodes: with those fields blanked, the tree after the layout is
  the tree before it, and node by node the text, level, parent and children references,
  expanded, selected and hovered flags, depth and number of children are unchanged.
\<close>

theorem layout_writes_only_layout_fields:
  "clearLayout (createRecursiveTreeLayout cb t) = clearLayout t \<and>
   map frame_fields (nodes_of (createRecursiveTreeLayout cb t)) = map frame_fields (nodes_of t)"
proof -
  have "clearLayout (createRecursiveTreeLayout cb t) = clearLayout t"
    by (simp add: createRecursiveTreeLayout_def clearLayout_setPos clearLayout_calc)
  then show ?thesis using clear_eq_frame by blast
qed


section \<open>The editing and interaction claims\<close>

definition demo_constants :: VALIDATION_CONSTANTS where
  "demo_constants = \<lparr>MAX_TEXT_LENGTH = 5, INVALID_CHARACTERS = [[0], [27]]\<rparr>"

definition demo_editor :: "jsstring option \<Rightarrow> NodeEditor" where
  "demo_editor content =
     \<lparr>editingState = \<lparr>isEditing = True, currentNode = Some 2, originalText = str ''B'', editElement = Some 7\<rparr>,
      canvasInteractionEnabled = False,
      nodeText = (\<lambda>n. if n = 2 then str ''B'' else []),
      elements = (\<lambda>e. \<lparr>textContent = (if e = 7 then content else None), contentEditable = (e = 7)\<rparr>),
      validationErrors = [], beforeTextChange = [], textChanged = [], canvasInteractionChanged = []\<rparr>"

lemmas editor_defs = saveText_def committedText_def showValidationError_def exitEditMode_def
  setCanvasInteraction_def validateText_def trim_def is_space_def str_def demo_editor_def
  demo_constants_def Let_def

text \<open>
  C7. When \<open>saveText\<close> runs on an active editing session and the text to commit (the trimmed
  content of the edit element) is empty, longer than \<open>MAX_TEXT_LENGTH\<close>, or contains one of
  the \<open>INVALID_CHARACTERS\<close>, the edit is rejected: no node text changes, one validation error
  is shown, \<open>onBeforeTextChange\<close> (the undo snapshot) and \<open>onTextChanged\<close> (persisting) are not
  called, and the editing session is over.
\<close>

theorem invalid_edit_rejected:
  assumes "isEditing (editingState ed)" and "currentNode (editingState ed) = Some node"
    and "editElement (editingState ed) = Some e"
    and "committedText ed = [] \<or> length (committedText ed) > MAX_TEXT_LENGTH vc \<or>
         (\<exists>c\<in>set (INVALID_CHARACTERS vc). js_includes (committedText ed) c)"
  shows "nodeText (saveText vc ed) = nodeText ed \<and>
         validationErrors (saveText vc ed) = validationErrors ed @ [NodeTextEmpty] \<and>
         beforeTextChange (saveText vc ed) = beforeTextChange ed \<and>
         textChanged (saveText vc ed) = textChanged ed \<and>
         \<not> isEditing (editingState (saveText vc ed)) \<and>
         currentNode (editingState (saveText vc ed)) = None"
proof -
  have "\<not> validateText vc (committedText ed)"
    using assms(4) by (auto simp: validateText_def list_ex_iff)
  then show ?thesis
    using assms(1-3)
    by (simp add: saveText_def committedText_def showValidationError_def exitEditMode_def
        setCanvasInteraction_def Let_def split: option.splits)
qed

theorem invalid_edit_rejected_witness:
  "isEditing (editingState (demo_editor (Some (str ''   '')))) \<and>
   currentNode (editingState (demo_editor (Some (str ''   '')))) = Some 2 \<and>
   editElement (editingState (demo_editor (Some (str ''   '')))) = Some 7 \<and>
   committedText (demo_editor (Some (str ''   ''))) = [] \<and>
   length (committedText (demo_editor (Some (str '' abcdef '')))) > MAX_TEXT_LENGTH demo_constants \<and>
   js_includes (committedText (demo_editor (Some [97, 27, 98]))) [27] \<and>
   nodeText (saveText demo_constants (demo_editor (Some (str ''   '')))) 2 = str ''B'' \<and>
   nodeText (saveText demo_constants (demo_editor (Some (str '' abcdef '')))) 2 = str ''B'' \<and>
   nodeText (saveText demo_constants (demo_editor (Some [97, 27, 98]))) 2 = str ''B'' \<and>
   validationErrors (saveText demo_constants (demo_editor (Some (str ''   '')))) = [NodeTextEmpty] \<and>
   beforeTextChange (saveText demo_constants (demo_editor (Some (str ''   '')))) = [] \<and>
   \<not> isEditing (editingState (saveText demo_constants (demo_editor (Some (str ''   '')))))"
proof -
  have h1: "isEditing (editingState (demo_editor c))" for c by (simp add: demo_editor_def)
  have h2: "currentNode (editingState (demo_editor c)) = Some 2" for c by (simp add: demo_editor_def)
  have h3: "editElement (editingState (demo_editor c)) = Some 7" for c by (simp add: demo_editor_def)
  have a: "committedText (demo_editor (Some (str ''   ''))) = []"
    by (simp add: editor_defs)
  have b: "length (committedText (demo_editor (Some (str '' abcdef '')))) > MAX_TEXT_LENGTH demo_constants"
    by (simp add: editor_defs)
  have c: "js_includes (committedText (demo_editor (Some [97, 27, 98]))) [27]"
    by (simp add: editor_defs)
  have c': "\<exists>c\<in>set (INVALID_CHARACTERS demo_constants). js_includes (committedText (demo_editor (Some [97, 27, 98]))) c"
    using c by (simp add: demo_constants_def)
  show ?thesis
    using invalid_edit_rejected[OF h1 h2 h3, of "Some (str ''   '')" demo_constants] a
          invalid_edit_rejected[OF h1 h2 h3, of "Some (str '' abcdef '')" demo_constants] b
          invalid_edit_rejected[OF h1 h2 h3, of "Some [97, 27, 98]" demo_constants] c c'
          h1 h2 h3
    by (simp add: demo_editor_def)
qed


text \<open>
  C8. Take a state the class can be in (\<open>timers_wf\<close>), with the window of 300 ms, and a click on
  node \<open>n\<close> at time \<open>t1\<close> that is not itself the second click of a double-click. The selection
  logic runs on that click, at once: \<open>performNodeSelection\<close> selects \<open>n\<close> and calls
  \<open>onNodeSelect\<close>, unless \<open>n\<close> is the node being edited, which it leaves alone; and the counter
  starts (\<open>lastClickTime = t1\<close>, \<open>clickNode = n\<close>). For a second click at \<open>t2 \<ge> t1\<close>:

  \<^item> on \<open>n\<close> less than 300 ms after the first, it is a double-click: \<open>onNodeDoubleClick\<close> is
    called, no selection runs (the selection of the first click stays), the counter is reset and
    no timer is left pending;
  \<^item> on another node \<open>m\<close>, at whatever time, it is no double-click: it is handled as a first
    click on \<open>m\<close>, and the counter restarts at it (\<open>lastClickTime = t2\<close>, \<open>clickNode = m\<close>);
  \<^item> on \<open>n\<close> 300 ms or more after the first, it is no double-click either, and is handled as a
    first click on \<open>n\<close>.

  The last two hold whether or not the timer that closes the window has run before the click
  is delivered (\<open>click\<close> runs it when it is due, \<open>handleNodeClick\<close> on the same state does not).
\<close>

theorem double_click_within_window:
  assumes wf: "timers_wf h"
    and w: "doubleClickTimeout h = 300"
    and single: "\<not> isDoubleClick t1 n (runDueTimers t1 h)"
    and le: "t1 \<le> t2"
  shows "ui_events (click t1 n h) =
           ui_events h @ (if cb_isEditing h \<and> cb_getEditingNode h = Some n then [] else [NodeSelect n]) \<and>
         (\<not> (cb_isEditing h \<and> cb_getEditingNode h = Some n) \<longrightarrow>
            selectedNode (click t1 n h) = Some n \<and> node_selected (click t1 n h) n = Some True) \<and>
         lastClickTime (click t1 n h) = t1 \<and> clickNode (click t1 n h) = Some n \<and>
         (t2 - t1 < 300 \<longrightarrow>
            ui_events (click t2 n (click t1 n h)) = ui_events (click t1 n h) @ [NodeDoubleClick n] \<and>
            selectedNode (click t2 n (click t1 n h)) = selectedNode (click t1 n h) \<and>
            node_selected (click t2 n (click t1 n h)) = node_selected (click t1 n h) \<and>
            lastClickTime (click t2 n (click t1 n h)) = 0 \<and>
            clickNode (click t2 n (click t1 n h)) = None \<and>
            pending_timers (click t2 n (click t1 n h)) = []) \<and>
         (m \<noteq> n \<longrightarrow>
            ui_events (click t2 m (click t1 n h)) =
              ui_events (click t1 n h) @
                (if cb_isEditing h \<and> cb_getEditingNode h = Some m then [] else [NodeSelect m]) \<and>
            lastClickTime (click t2 m (click t1 n h)) = t2 \<and>
            clickNode (click t2 m (click t1 n h)) = Some m \<and>
            ui_events (handleNodeClick t2 m (click t1 n h)) = ui_events (click t2 m (click t1 n h)) \<and>
            lastClickTime (handleNodeClick t2 m (click t1 n h)) = t2 \<and>
            clickNode (handleNodeClick t2 m (click t1 n h)) = Some m) \<and>
         (300 \<le> t2 - t1 \<longrightarrow>
            ui_events (click t2 n (click t1 n h)) =
              ui_events (click t1 n h) @
                (if cb_isEditing h \<and> cb_getEditingNode h = Some n then [] else [NodeSelect n]) \<and>
            lastClickTime (click t2 n (click t1 n h)) = t2 \<and>
            clickNode (click t2 n (click t1 n h)) = Some n \<and>
            ui_events (handleNodeClick t2 n (click t1 n h)) = ui_events (click t2 n (click t1 n h)) \<and>
            lastClickTime (handleNodeClick t2 n (click t1 n h)) = t2 \<and>
            clickNode (handleNodeClick t2 n (click t1 n h)) = Some n)"
proof -
  define h0 where "h0 = runDueTimers t1 h"
  define g where "g = click t1 n h"
  have g: "g = handleNodeClick t1 n h0" unfolding g_def h0_def click_def ..
  note F = runDueTimers_frame[OF wf, of t1, folded h0_def]
  have s0: "\<not> isDoubleClick t1 n h0" using single unfolding h0_def .
  note S = single_click[OF s0, folded g]
  have wf0: "timers_wf h0" by (rule F(7))
  have ed: "cb_isEditing g = cb_isEditing h" "cb_getEditingNode g = cb_getEditingNode h"
    using S(7,8) F(2,3) by simp_all
  have wg: "doubleClickTimeout g = 300" using S(6) F(4) w by simp
  have pg: "pending_timers g = [\<lparr>timer_id = next_timer_id h0, timer_due = t1 + 300\<rparr>]"
    and cg: "clickTimeout g = Some (next_timer_id h0)"
    using S(5)[OF wf0] F(4) w by simp_all
  have wfg: "timers_wf g" using pg cg by (simp add: timers_wf_def)
  have lg: "lastClickTime g = t1" and ng: "clickNode g = Some n" using S(2,3) by simp_all
  have a1: "ui_events g =
           ui_events h @ (if cb_isEditing h \<and> cb_getEditingNode h = Some n then [] else [NodeSelect n])"
    using S(1) F(1,2,3) by simp
  have a2: "\<not> (cb_isEditing h \<and> cb_getEditingNode h = Some n) \<longrightarrow>
            selectedNode g = Some n \<and> node_selected g n = Some True"
    using S(4) F(2,3) by simp
  have single_at: "\<not> isDoubleClick t k g' \<Longrightarrow> cb_isEditing g' = cb_isEditing h \<Longrightarrow>
      cb_getEditingNode g' = cb_getEditingNode h \<Longrightarrow> ui_events g' = ui_events g \<Longrightarrow>
      ui_events (handleNodeClick t k g') =
        ui_events g @ (if cb_isEditing h \<and> cb_getEditingNode h = Some k then [] else [NodeSelect k]) \<and>
      lastClickTime (handleNodeClick t k g') = t \<and> clickNode (handleNodeClick t k g') = Some k"
    for t k g'
    using single_click(1-3)[of t k g'] by simp
  note G = runDueTimers_frame[OF wfg, of t2]
  have b: "t2 - t1 < 300 \<longrightarrow>
            ui_events (click t2 n g) = ui_events g @ [NodeDoubleClick n] \<and>
            selectedNode (click t2 n g) = selectedNode g \<and>
            node_selected (click t2 n g) = node_selected g \<and>
            lastClickTime (click t2 n g) = 0 \<and>
            clickNode (click t2 n g) = None \<and>
            pending_timers (click t2 n g) = []"
  proof
    assume lt: "t2 - t1 < 300"
    have idle: "runDueTimers t2 g = g" using pg lt by (simp add: runDueTimers_def)
    have d: "isDoubleClick t2 n g" using lt lg ng wg by (simp add: isDoubleClick_def)
    show "ui_events (click t2 n g) = ui_events g @ [NodeDoubleClick n] \<and>
            selectedNode (click t2 n g) = selectedNode g \<and>
            node_selected (click t2 n g) = node_selected g \<and>
            lastClickTime (click t2 n g) = 0 \<and>
            clickNode (click t2 n g) = None \<and>
            pending_timers (click t2 n g) = []"
      unfolding click_def[of t2 n g] idle using double_click[OF d wfg] by simp
  qed
  have c: "m \<noteq> n \<longrightarrow>
            ui_events (click t2 m g) =
              ui_events g @ (if cb_isEditing h \<and> cb_getEditingNode h = Some m then [] else [NodeSelect m]) \<and>
            lastClickTime (click t2 m g) = t2 \<and>
            clickNode (click t2 m g) = Some m \<and>
            ui_events (handleNodeClick t2 m g) = ui_events (click t2 m g) \<and>
            lastClickTime (handleNodeClick t2 m g) = t2 \<and>
            clickNode (handleNodeClick t2 m g) = Some m"
  proof
    assume mn: "m \<noteq> n"
    have n1: "\<not> isDoubleClick t2 m g" using ng mn by (simp add: isDoubleClick_def)
    have n2: "\<not> isDoubleClick t2 m (runDueTimers t2 g)"
      using G(8) ng mn by (auto simp: isDoubleClick_def)
    have r1: "ui_events (handleNodeClick t2 m g) =
        ui_events g @ (if cb_isEditing h \<and> cb_getEditingNode h = Some m then [] else [NodeSelect m]) \<and>
      lastClickTime (handleNodeClick t2 m g) = t2 \<and> clickNode (handleNodeClick t2 m g) = Some m"
      using n1 ed by (intro single_at) simp_all
    have r2: "ui_events (handleNodeClick t2 m (runDueTimers t2 g)) =
        ui_events g @ (if cb_isEditing h \<and> cb_getEditingNode h = Some m then [] else [NodeSelect m]) \<and>
      lastClickTime (handleNodeClick t2 m (runDueTimers t2 g)) = t2 \<and>
      clickNode (handleNodeClick t2 m (runDueTimers t2 g)) = Some m"
      using n2 ed G(1,2,3) by (intro single_at) simp_all
    show "ui_events (click t2 m g) =
              ui_events g @ (if cb_isEditing h \<and> cb_getEditingNode h = Some m then [] else [NodeSelect m]) \<and>
            lastClickTime (click t2 m g) = t2 \<and>
            clickNode (click t2 m g) = Some m \<and>
            ui_events (handleNodeClick t2 m g) = ui_events (click t2 m g) \<and>
            lastClickTime (handleNodeClick t2 m g) = t2 \<and>
            clickNode (handleNodeClick t2 m g) = Some m"
      unfolding click_def[of t2 m g] using r1 r2 by simp
  qed
  have d: "300 \<le> t2 - t1 \<longrightarrow>
            ui_events (click t2 n g) =
              ui_events g @ (if cb_isEditing h \<and> cb_getEditingNode h = Some n then [] else [NodeSelect n]) \<and>
            lastClickTime (click t2 n g) = t2 \<and>
            clickNode (click t2 n g) = Some n \<and>
            ui_events (handleNodeClick t2 n g) = ui_events (click t2 n g) \<and>
            lastClickTime (handleNodeClick t2 n g) = t2 \<and>
            clickNode (handleNodeClick t2 n g) = Some n"
  proof
    assume ge: "300 \<le> t2 - t1"
    have n1: "\<not> isDoubleClick t2 n g" using lg wg ge by (simp add: isDoubleClick_def)
    have fired: "runDueTimers t2 g =
        g\<lparr>pending_timers := [], lastClickTime := 0, clickNode := None, clickTimeout := None\<rparr>"
      using pg ge by (simp add: runDueTimers_def windowTimerFired_def clearTimeout_def)
    have n2: "\<not> isDoubleClick t2 n (runDueTimers t2 g)"
      unfolding fired by (simp add: isDoubleClick_def)
    have r1: "ui_events (handleNodeClick t2 n g) =
        ui_events g @ (if cb_isEditing h \<and> cb_getEditingNode h = Some n then [] else [NodeSelect n]) \<and>
      lastClickTime (handleNodeClick t2 n g) = t2 \<and> clickNode (handleNodeClick t2 n g) = Some n"
      using n1 ed by (intro single_at) simp_all
    have r2: "ui_events (handleNodeClick t2 n (runDueTimers t2 g)) =
        ui_events g @ (if cb_isEditing h \<and> cb_getEditingNode h = Some n then [] else [NodeSelect n]) \<and>
      lastClickTime (handleNodeClick t2 n (runDueTimers t2 g)) = t2 \<and>
      clickNode (handleNodeClick t2 n (runDueTimers t2 g)) = Some n"
      using n2 ed G(1,2,3) by (intro single_at) simp_all
    show "ui_events (click t2 n g) =
              ui_events g @ (if cb_isEditing h \<and> cb_getEditingNode h = Some n then [] else [NodeSelect n]) \<and>
            lastClickTime (click t2 n g) = t2 \<and>
            clickNode (click t2 n g) = Some n \<and>
            ui_events (handleNodeClick t2 n g) = ui_events (click t2 n g) \<and>
            lastClickTime (handleNodeClick t2 n g) = t2 \<and>
            clickNode (handleNodeClick t2 n g) = Some n"
      unfolding click_def[of t2 n g] using r1 r2 by simp
  qed
  show ?thesis
    unfolding g_def[symmetric] using a1 a2 lg ng b c d by (intro conjI)
qed

theorem double_click_within_window_witness:
  "timers_wf new_MouseInteraction \<and>
   doubleClickTimeout new_MouseInteraction = 300 \<and>
   \<not> isDoubleClick 1000 1 (runDueTimers 1000 new_MouseInteraction) \<and>
   (1000::int) \<le> 1299 \<and> (1000::int) \<le> 1300 \<and>
   ui_events (click 1000 1 new_MouseInteraction) = [NodeSelect 1] \<and>
   selectedNode (click 1000 1 new_MouseInteraction) = Some 1 \<and>
   ui_events (click 1299 1 (click 1000 1 new_MouseInteraction)) = [NodeSelect 1, NodeDoubleClick 1] \<and>
   selectedNode (click 1299 1 (click 1000 1 new_MouseInteraction)) = Some 1 \<and>
   clickNode (click 1299 1 (click 1000 1 new_MouseInteraction)) = None \<and>
   ui_events (click 1299 2 (click 1000 1 new_MouseInteraction)) = [NodeSelect 1, NodeSelect 2] \<and>
   clickNode (click 1299 2 (click 1000 1 new_MouseInteraction)) = Some 2 \<and>
   ui_events (click 1300 1 (click 1000 1 new_MouseInteraction)) = [NodeSelect 1, NodeSelect 1] \<and>
   lastClickTime (click 1300 1 (click 1000 1 new_MouseInteraction)) = 1300"
proof -
  have h1: "timers_wf new_MouseInteraction" by (simp add: click_defs)
  have h2: "doubleClickTimeout new_MouseInteraction = 300" by (simp add: click_defs)
  have h3: "\<not> isDoubleClick 1000 1 (runDueTimers 1000 new_MouseInteraction)" by (simp add: click_defs)
  have h4: "(1000::int) \<le> 1299" and h5: "(1000::int) \<le> 1300" by simp_all
  have e: "\<not> (cb_isEditing new_MouseInteraction \<and> cb_getEditingNode new_MouseInteraction = Some k)" for k
    by (simp add: new_MouseInteraction_def)
  have u: "ui_events new_MouseInteraction = []" by (simp add: new_MouseInteraction_def)
  show ?thesis
    using double_click_within_window[OF h1 h2 h3 h4, of 2]
          double_click_within_window[OF h1 h2 h3 h5, of 2] h1 h2 h3 e u
    by simp
qed


section \<open>The parsing claims\<close>

definition demo_document :: jsstring where
  "demo_document = str ''#mindmap'' @ [10, 10] @ str ''- A [k:v] x'' @ [10] @ str ''   more'' @ [10]
     @ str ''    1. B'' @ [10] @ str ''    + C'' @ [10]"

definition demo_parsed :: mtree where
  "demo_parsed = the (rootTree (parseMarkdownContent demo_document (str ''notes/map.md'')))"

lemmas canonical_defs = wellformed_def text_ok_def first_line_ok_def continuation_ok_def

text \<open>
  C9, as stated, fails: the parser takes a node's level from its indentation and its parent
  from the stack, and an item indented two levels deeper than the item before it becomes
  that item's child. In \<open>#mindmap / * A / (8 spaces)* B\<close> the node \<open>B\<close> (index 2) has level 3
  and its parent \<open>A\<close> (index 1) has level 1.
\<close>

theorem child_level_counterexample:
  "parent (allNodes (parseMarkdownContent
       (str ''#mindmap'' @ [10] @ str ''* A'' @ [10] @ str ''        * B'') (str ''map.md'')) ! 2) = Some 1 \<and>
   level (allNodes (parseMarkdownContent
       (str ''#mindmap'' @ [10] @ str ''* A'' @ [10] @ str ''        * B'') (str ''map.md'')) ! 2) = 3 \<and>
   level (allNodes (parseMarkdownContent
       (str ''#mindmap'' @ [10] @ str ''* A'' @ [10] @ str ''        * B'') (str ''map.md'')) ! 1) = 1"
  by (simp add: parse_defs)

text \<open>
  C9, amended. \<open>item_levels\<close> lists the indentation levels (\<open>floor (indent / 4)\<close>) of the
  list items of a document, in order. When the first item is at indentation level 0 and no
  item is more than one level deeper than the item before it (\<open>steps_ok\<close>), then in the tree
  returned by \<open>parseMarkdownContent\<close> every node but the root has a parent, which was created
  before it, and its level is its parent's level plus 1.
\<close>

theorem child_level_is_parent_level_plus_one:
  assumes "steps_ok 1 (item_levels content)"
    and "0 < i" and "i < length (allNodes (parseMarkdownContent content filePath))"
  shows "\<exists>p. parent (allNodes (parseMarkdownContent content filePath) ! i) = Some p \<and> p < i \<and>
             level (allNodes (parseMarkdownContent content filePath) ! i) =
               level (allNodes (parseMarkdownContent content filePath) ! p) + 1"
  using parse_levels[OF assms(1), of filePath] assms(2,3) unfolding level_inv_def by blast

theorem child_level_is_parent_level_plus_one_witness:
  "steps_ok 1 (item_levels demo_document) \<and> (0::nat) < 3 \<and>
   3 < length (allNodes (parseMarkdownContent demo_document (str ''notes/map.md''))) \<and>
   parent (allNodes (parseMarkdownContent demo_document (str ''notes/map.md'')) ! 3) = Some 1 \<and>
   level (allNodes (parseMarkdownContent demo_document (str ''notes/map.md'')) ! 3) = 2 \<and>
   level (allNodes (parseMarkdownContent demo_document (str ''notes/map.md'')) ! 1) = 1"
proof -
  have h1: "steps_ok 1 (item_levels demo_document)"
    by (simp add: item_levels_def line_item_def demo_document_def parse_defs)
  have h2: "(0::nat) < 3" by simp
  have h3: "3 < length (allNodes (parseMarkdownContent demo_document (str ''notes/map.md'')))"
    by (simp add: demo_document_def parse_defs)
  have v: "parent (allNodes (parseMarkdownContent demo_document (str ''notes/map.md'')) ! 3) = Some 1"
    by (simp add: demo_document_def parse_defs)
  show ?thesis
    using child_level_is_parent_level_plus_one[OF h1 h2 h3] h1 h3 v
    by (simp add: demo_document_def parse_defs)
qed

text \<open>
  C1, as stated, fails. \<open>cleanTextContent\<close> removes \<open>[key:value]\<close> attributes from an item's
  text, so the item \<open>* [a:b]\<close> parses to a node with empty text; it is serialized as the line
  \<open>* \<close>, which is not a list item any more, and the second parse has no node at all:
  parsing and serializing twice does not give what parsing and serializing once gives, and
  the second tree is not the first.
\<close>

theorem roundtrip_counterexample:
  "reparse (str ''#mindmap'' @ [10, 10] @ str ''* [a:b]'' @ [10]) (str ''map.md'') =
     Some (str ''#mindmap'' @ [10, 10] @ str ''* '' @ [10]) \<and>
   reparse (str ''#mindmap'' @ [10, 10] @ str ''* '' @ [10]) (str ''map.md'') =
     Some (str ''#mindmap'' @ [10, 10]) \<and>
   map_option outline_of (rootTree (parseMarkdownContent
       (str ''#mindmap'' @ [10, 10] @ str ''* [a:b]'' @ [10]) (str ''map.md''))) =
     Some (Outline (str ''map'') 0 [Outline [] 1 []]) \<and>
   map_option outline_of (rootTree (parseMarkdownContent
       (str ''#mindmap'' @ [10, 10] @ str ''* '' @ [10]) (str ''map.md''))) =
     Some (Outline (str ''map'') 0 [])"
  by (simp add: parse_defs serialize_defs)

text \<open>
  C1, amended. \<open>parseMarkdownContent\<close> always returns a tree \<open>t\<close>. Call it well formed when
  every node below the root has the level of its depth (the root's children at level 1), a
  first text line that is not empty, has no line terminator and is left unchanged by
  \<open>cleanTextContent\<close>, and further text lines that are not empty, are trimmed and do not read
  as list items. Then serializing \<open>t\<close> and parsing the result gives a tree with the same
  texts, levels and child order (the same outline), and serializing that tree gives the
  same document again; the first parse-then-serialize may have normalized the document.
\<close>

theorem roundtrip_wellformed:
  "\<exists>t. rootTree (parseMarkdownContent content filePath) = Some t \<and>
       (wellformed t \<longrightarrow>
          (\<exists>t'. rootTree (parseMarkdownContent (generateMarkdownFromNodes t) filePath) = Some t' \<and>
                outline_of t' = outline_of t \<and>
                generateMarkdownFromNodes t' = generateMarkdownFromNodes t))"
proof -
  obtain t where t: "rootTree (parseMarkdownContent content filePath) = Some t"
    using parse_tree_exists by blast
  then show ?thesis using roundtrip_core[OF t] by blast
qed

theorem roundtrip_wellformed_witness:
  "rootTree (parseMarkdownContent demo_document (str ''notes/map.md'')) = Some demo_parsed \<and>
   wellformed demo_parsed \<and>
   generateMarkdownFromNodes demo_parsed =
     str ''#mindmap'' @ [10, 10] @ str ''* A  x'' @ [10] @ str ''  more'' @ [10]
       @ str ''    * B'' @ [10] @ str ''    * C'' @ [10] \<and>
   generateMarkdownFromNodes demo_parsed \<noteq> demo_document \<and>
   reparse (generateMarkdownFromNodes demo_parsed) (str ''notes/map.md'') =
     Some (generateMarkdownFromNodes demo_parsed)"
proof -
  have e: "rootTree (parseMarkdownContent demo_document (str ''notes/map.md'')) = Some demo_parsed"
    by (simp add: demo_parsed_def demo_document_def parse_defs serialize_defs)
  have w: "wellformed demo_parsed"
    by (simp add: demo_parsed_def demo_document_def parse_defs serialize_defs canonical_defs)
  have g: "generateMarkdownFromNodes demo_parsed =
     str ''#mindmap'' @ [10, 10] @ str ''* A  x'' @ [10] @ str ''  more'' @ [10]
       @ str ''    * B'' @ [10] @ str ''    * C'' @ [10]"
    by (simp add: demo_parsed_def demo_document_def parse_defs serialize_defs)
       (simp add: eval_nat_numeral)
  have n: "generateMarkdownFromNodes demo_parsed \<noteq> demo_document"
    unfolding g by (simp add: demo_document_def str_def)
  from roundtrip_wellformed[of demo_document "str ''notes/map.md''"] e w
  obtain t' where "rootTree (parseMarkdownContent (generateMarkdownFromNodes demo_parsed) (str ''notes/map.md'')) = Some t'"
    and "generateMarkdownFromNodes t' = generateMarkdownFromNodes demo_parsed"
    by auto
  then have "reparse (generateMarkdownFromNodes demo_parsed) (str ''notes/map.md'') =
     Some (generateMarkdownFromNodes demo_parsed)"
    by (simp add: reparse_def)
  with e w g n show ?thesis by simp
qed

section \<open>Undo and redo: \<open>UndoManager\<close>\<close>

text \<open>
  The nodes of a mind map are objects that refer to each other (\<open>parent\<close>, \<open>children\<close>), and the
  questions about \<open>UndoManager\<close> are questions of identity: which objects a snapshot shares with
  the live tree. The store is therefore explicit here, as in the parser: a list of cells, an
  object being its index. \<open>{...node}\<close> allocates a cell at the end of the store and copies the
  fields; an assignment to a field updates the cell. A \<open>MindMapData\<close> holds references: its
  fields \<open>allNodes\<close> and \<open>maxLevel\<close> are \<open>allNodes_refs\<close> and \<open>maxLevel_data\<close> here, the names being
  taken by the parser's state.

  \<open>deepCloneNode\<close> and \<open>rebuildParentReferences\<close> recurse over the children of a node, which ends
  only when no node is its own descendant. The functions below take fuel, the depth to which
  they may descend, and return \<open>None\<close> when it runs out or when a reference points outside the
  store. The theorems show that they return whenever \<open>tree_of\<close> reads a tree from the node with
  the same fuel.
\<close>

record MindMapData =
  rootNode :: "nat option"
  allNodes_refs :: "nat list"
  maxLevel_data :: nat

record UndoManager =
  undoStack :: "MindMapData list"
  redoStack :: "MindMapData list"

text \<open>\<open>undoStack\<close> and \<open>redoStack\<close> grow at the end (\<open>push\<close>, \<open>pop\<close>); \<open>shift\<close> drops the head.\<close>

definition MAX_STACK_SIZE :: nat where
  "MAX_STACK_SIZE = 5"

text \<open>\<open>deepCloneNode\<close>: the clone is allocated first, then the children are cloned from left to
  right, then the clone's \<open>children\<close> and \<open>parent\<close> are assigned.\<close>

fun deepCloneNode :: "nat \<Rightarrow> MindMapNode list \<Rightarrow> nat \<Rightarrow> (MindMapNode list \<times> nat) option"
and cloneAll :: "nat \<Rightarrow> MindMapNode list \<Rightarrow> nat list \<Rightarrow> (MindMapNode list \<times> nat list) option" where
  "deepCloneNode 0 h node = None"
| "deepCloneNode (Suc fuel) h node =
     (if node < length h then
        (let clone = length h;
             h1 = h @ [h ! node]
         in case cloneAll fuel h1 (children (h ! node)) of
              None \<Rightarrow> None
            | Some (h2, refs) \<Rightarrow>
                Some (h2[clone := (h2 ! clone)\<lparr>children := refs, parent := None\<rparr>], clone))
      else None)"
| "cloneAll fuel h [] = Some (h, [])"
| "cloneAll fuel h (r # rs) =
     (case deepCloneNode fuel h r of
        None \<Rightarrow> None
      | Some (h1, c) \<Rightarrow>
          (case cloneAll fuel h1 rs of
             None \<Rightarrow> None
           | Some (h2, cs) \<Rightarrow> Some (h2, c # cs)))"

text \<open>\<open>rebuildParentReferences\<close>: for each child in turn, the child's \<open>parent\<close> is set and the child's
  own subtree is rebuilt.\<close>

fun rebuildParentReferences :: "nat \<Rightarrow> MindMapNode list \<Rightarrow> nat \<Rightarrow> MindMapNode list option"
and rebuildChildren :: "nat \<Rightarrow> MindMapNode list \<Rightarrow> nat \<Rightarrow> nat list \<Rightarrow> MindMapNode list option" where
  "rebuildParentReferences 0 h node = None"
| "rebuildParentReferences (Suc fuel) h node =
     (if node < length h then rebuildChildren fuel h node (children (h ! node)) else None)"
| "rebuildChildren fuel h node [] = Some h"
| "rebuildChildren fuel h node (child # rest) =
     (if child < length h then
        (case rebuildParentReferences fuel (h[child := (h ! child)\<lparr>parent := Some node\<rparr>]) child of
           None \<Rightarrow> None
         | Some h1 \<Rightarrow> rebuildChildren fuel h1 node rest)
      else None)"

text \<open>\<open>saveSnapshot\<close>, \<open>undo\<close> and \<open>redo\<close> build their snapshot by the same statements, which are
  \<open>takeSnapshot\<close> here: the root is cloned, every entry of \<open>allNodes\<close> is cloned on its own, and the
  parents are rebuilt from the cloned root only.\<close>

definition takeSnapshot :: "nat \<Rightarrow> MindMapNode list \<Rightarrow> MindMapData \<Rightarrow> (MindMapNode list \<times> MindMapData) option" where
  "takeSnapshot fuel h d =
     (case (case rootNode d of
              None \<Rightarrow> Some (h, None)
            | Some r \<Rightarrow> map_option (\<lambda>(h1, c). (h1, Some c)) (deepCloneNode fuel h r)) of
        None \<Rightarrow> None
      | Some (h1, root') \<Rightarrow>
          (case cloneAll fuel h1 (allNodes_refs d) of
             None \<Rightarrow> None
           | Some (h2, refs) \<Rightarrow>
               (let snapshot = \<lparr>rootNode = root', allNodes_refs = refs, maxLevel_data = maxLevel_data d\<rparr>
                in case root' of
                     None \<Rightarrow> Some (h2, snapshot)
                   | Some c \<Rightarrow> map_option (\<lambda>h3. (h3, snapshot)) (rebuildParentReferences fuel h2 c))))"

definition saveSnapshot :: "nat \<Rightarrow> UndoManager \<Rightarrow> MindMapNode list \<Rightarrow> MindMapData \<Rightarrow> (UndoManager \<times> MindMapNode list) option" where
  "saveSnapshot fuel um h d =
     (case takeSnapshot fuel h d of
        None \<Rightarrow> None
      | Some (h1, snapshot) \<Rightarrow>
          (let stack1 = undoStack um @ [snapshot];
               stack2 = (if length stack1 > MAX_STACK_SIZE then tl stack1 else stack1)
           in Some (\<lparr>undoStack = stack2, redoStack = []\<rparr>, h1)))"

text \<open>\<open>undo\<close> and \<open>redo\<close> return the new manager, the new store and the state or \<open>null\<close>.\<close>

definition undo :: "nat \<Rightarrow> UndoManager \<Rightarrow> MindMapNode list \<Rightarrow> MindMapData \<Rightarrow> (UndoManager \<times> MindMapNode list \<times> MindMapData option) option" where
  "undo fuel um h currentState =
     (if length (undoStack um) = 0 then Some (um, h, None)
      else
        (case takeSnapshot fuel h currentState of
           None \<Rightarrow> None
         | Some (h1, snapshot) \<Rightarrow>
             Some (\<lparr>undoStack = butlast (undoStack um), redoStack = redoStack um @ [snapshot]\<rparr>,
                   h1, Some (last (undoStack um)))))"

definition redo :: "nat \<Rightarrow> UndoManager \<Rightarrow> MindMapNode list \<Rightarrow> MindMapData \<Rightarrow> (UndoManager \<times> MindMapNode list \<times> MindMapData option) option" where
  "redo fuel um h currentState =
     (if length (redoStack um) = 0 then Some (um, h, None)
      else
        (case takeSnapshot fuel h currentState of
           None \<Rightarrow> None
         | Some (h1, snapshot) \<Rightarrow>
             Some (\<lparr>undoStack = undoStack um @ [snapshot], redoStack = butlast (redoStack um)\<rparr>,
                   h1, Some (last (redoStack um)))))"

definition clearHistory :: UndoManager where
  "clearHistory = \<lparr>undoStack = [], redoStack = []\<rparr>"

subsection \<open>Snapshots as blocks of fresh cells\<close>

fun tsize :: "mtree \<Rightarrow> nat" where
  "tsize (MTree n ts) = Suc (sum_list (map tsize ts))"

fun theight :: "mtree \<Rightarrow> nat" where
  "theight (MTree n ts) = Suc (foldr max (map theight ts) 0)"

fun trefs :: "nat \<Rightarrow> mtree list \<Rightarrow> nat list" where
  "trefs a [] = []"
| "trefs a (t # ts) = a # trefs (a + tsize t) ts"

fun block :: "(nat \<Rightarrow> nat option) \<Rightarrow> nat option \<Rightarrow> nat \<Rightarrow> mtree \<Rightarrow> MindMapNode list"
and blocks :: "(nat \<Rightarrow> nat option) \<Rightarrow> nat option \<Rightarrow> nat \<Rightarrow> mtree list \<Rightarrow> MindMapNode list" where
  "block pf par c (MTree n ts) = n\<lparr>children := trefs (Suc c) ts, parent := par\<rparr> # blocks pf (pf c) (Suc c) ts"
| "blocks pf par a [] = []"
| "blocks pf par a (t # ts) = block pf par a t @ blocks pf par (a + tsize t) ts"

fun content_of :: "mtree \<Rightarrow> mtree" where
  "content_of (MTree n ts) = MTree (n\<lparr>children := [], parent := None\<rparr>) (map content_of ts)"

lemma foldr_max_ge: "x \<in> set xs \<Longrightarrow> x \<le> foldr max xs (0::nat)"
  by (induction xs) auto

lemma theight_child: "t \<in> set ts \<Longrightarrow> theight t \<le> foldr max (map theight ts) 0"
  by (rule foldr_max_ge) simp

lemma length_block: "length (block pf par c t) = tsize t"
  and length_blocks: "length (blocks pf par a ts) = sum_list (map tsize ts)"
  by (induction pf par c t and pf par a ts rule: block_blocks.induct) simp_all

lemma those_map_Some:
  "(\<And>x y. x \<in> set xs \<Longrightarrow> g x = Some y \<Longrightarrow> g' x = Some y) \<Longrightarrow>
   those (map g xs) = Some ys \<Longrightarrow> those (map g' xs) = Some ys"
proof (induction xs arbitrary: ys)
  case Nil
  then show ?case by simp
next
  case (Cons x xs)
  from Cons.prems(2) obtain y ys' where y: "g x = Some y"
    and ys': "those (map g xs) = Some ys'" and e: "ys = y # ys'"
    by (auto split: option.splits)
  have "g' x = Some y" using Cons.prems(1)[of x y] y by simp
  moreover have "those (map g' xs) = Some ys'"
    using Cons.prems(1) ys' by (intro Cons.IH) simp_all
  ultimately show ?case using e by simp
qed

lemma tree_of_extend: "tree_of f h r = Some t \<Longrightarrow> tree_of f (h @ e) r = Some t"
proof (induction f arbitrary: r t)
  case 0
  then show ?case by simp
next
  case (Suc f)
  have r: "r < length h" using Suc.prems by (simp split: if_splits)
  then obtain ts where ts: "those (map (tree_of f h) (children (h ! r))) = Some ts"
    and t: "t = MTree (h ! r) ts"
    using Suc.prems by auto
  have "those (map (tree_of f (h @ e)) (children (h ! r))) = Some ts"
    using _ ts by (rule those_map_Some) (rule Suc.IH)
  then show ?case using r t by (simp add: nth_append)
qed

lemma those_tree_of_extend:
  "those (map (tree_of f h) rs) = Some ts \<Longrightarrow> those (map (tree_of f (h @ e)) rs) = Some ts"
  using _ by (rule those_map_Some) (rule tree_of_extend)

lemma tree_of_height: "tree_of f h r = Some t \<Longrightarrow> theight t \<le> f"
proof (induction f arbitrary: r t)
  case 0
  then show ?case by simp
next
  case (Suc f)
  have r: "r < length h" using Suc.prems by (simp split: if_splits)
  then obtain ts where ts: "those (map (tree_of f h) (children (h ! r))) = Some ts"
    and t: "t = MTree (h ! r) ts"
    using Suc.prems by auto
  have each: "those (map (tree_of f h) cs) = Some us \<Longrightarrow> \<forall>u\<in>set us. theight u \<le> f" for cs us
  proof (induction cs arbitrary: us)
    case Nil
    then show ?case by simp
  next
    case (Cons c cs)
    from Cons.prems obtain y ys where y: "tree_of f h c = Some y"
      and ys: "those (map (tree_of f h) cs) = Some ys" and e: "us = y # ys"
      by (auto split: option.splits)
    show ?case using Suc.IH[OF y] Cons.IH[OF ys] e by simp
  qed
  have "foldr max (map theight ts) 0 \<le> f" using each[OF ts]
    by (induction ts) simp_all
  then show ?case using t by simp
qed

subsection \<open>Cloning\<close>

lemma cloneAll_from_deepClone:
  assumes Q: "\<And>h r t. tree_of f h r = Some t \<Longrightarrow>
                deepCloneNode f h r = Some (h @ block (\<lambda>_. None) None (length h) t, length h)"
  shows "those (map (tree_of f h) rs) = Some ts \<Longrightarrow>
         cloneAll f h rs = Some (h @ blocks (\<lambda>_. None) None (length h) ts, trefs (length h) ts)"
proof (induction rs arbitrary: h ts)
  case Nil
  then show ?case by simp
next
  case (Cons r rs)
  from Cons.prems obtain t ts' where t: "tree_of f h r = Some t"
    and ts': "those (map (tree_of f h) rs) = Some ts'" and e: "ts = t # ts'"
    by (auto split: option.splits)
  let ?h1 = "h @ block (\<lambda>_. None) None (length h) t"
  have c1: "deepCloneNode f h r = Some (?h1, length h)" using t by (rule Q)
  have "those (map (tree_of f ?h1) rs) = Some ts'" using ts' by (rule those_tree_of_extend)
  then have c2: "cloneAll f ?h1 rs = Some (?h1 @ blocks (\<lambda>_. None) None (length ?h1) ts', trefs (length ?h1) ts')"
    by (rule Cons.IH)
  show ?case using c1 c2 e by (simp add: length_block)
qed

lemma deepCloneNode_block:
  "tree_of f h r = Some t \<Longrightarrow>
   deepCloneNode f h r = Some (h @ block (\<lambda>_. None) None (length h) t, length h)"
proof (induction f arbitrary: h r t)
  case 0
  then show ?case by simp
next
  case (Suc f)
  have r: "r < length h" using Suc.prems by (simp split: if_splits)
  then obtain ts where ts: "those (map (tree_of f h) (children (h ! r))) = Some ts"
    and t: "t = MTree (h ! r) ts"
    using Suc.prems by auto
  let ?h1 = "h @ [h ! r]"
  have "those (map (tree_of f ?h1) (children (h ! r))) = Some ts" using ts by (rule those_tree_of_extend)
  then have c: "cloneAll f ?h1 (children (h ! r)) =
      Some (?h1 @ blocks (\<lambda>_. None) None (length ?h1) ts, trefs (length ?h1) ts)"
    using Suc.IH by (rule cloneAll_from_deepClone[rotated])
  show ?case
    using r c by (simp add: t Let_def nth_append list_update_append)
qed

lemma cloneAll_blocks:
  "those (map (tree_of f h) rs) = Some ts \<Longrightarrow>
   cloneAll f h rs = Some (h @ blocks (\<lambda>_. None) None (length h) ts, trefs (length h) ts)"
  using deepCloneNode_block by (rule cloneAll_from_deepClone)

subsection \<open>Rebuilding the parent references\<close>

lemma block_nonempty: "block pf par c t \<noteq> []"
  by (cases t) simp

lemma block_hd:
  "block pf par c (MTree n ts) ! 0 = n\<lparr>children := trefs (Suc c) ts, parent := par\<rparr>"
  by simp

lemma block_reparent:
  "(block pf par c t)[0 := (block pf par c t ! 0)\<lparr>parent := par'\<rparr>] = block pf par' c t"
  by (cases t) simp

lemma rebuildChildren_from_rebuild:
  assumes Q: "\<And>t pf par pre post. t \<in> set ts \<Longrightarrow>
      rebuildParentReferences f (pre @ block pf par (length pre) t @ post) (length pre) =
        Some (pre @ block Some par (length pre) t @ post)"
  shows "set us \<subseteq> set ts \<Longrightarrow>
         rebuildChildren f (pre @ blocks pf par (length pre) us @ post) c (trefs (length pre) us) =
           Some (pre @ blocks Some (Some c) (length pre) us @ post)"
proof (induction us arbitrary: pre)
  case Nil
  then show ?case by simp
next
  case (Cons t us)
  let ?a = "length pre"
  let ?rest = "blocks pf par (?a + tsize t) us @ post"
  let ?H = "pre @ block pf par ?a t @ ?rest"
  have tin: "t \<in> set ts" and sub: "set us \<subseteq> set ts" using Cons.prems by simp_all
  have lt: "?a < length ?H" using block_nonempty[of pf par ?a t] by (cases "block pf par ?a t") simp_all
  have cell: "?H ! ?a = block pf par ?a t ! 0"
    using block_nonempty[of pf par ?a t] by (simp add: nth_append)
  have upd: "?H[?a := (?H ! ?a)\<lparr>parent := Some c\<rparr>] = pre @ block pf (Some c) ?a t @ ?rest"
    unfolding cell using block_nonempty[of pf par ?a t]
    by (simp add: list_update_append block_reparent)
  have r1: "rebuildParentReferences f (pre @ block pf (Some c) ?a t @ ?rest) ?a =
            Some (pre @ block Some (Some c) ?a t @ ?rest)"
    using tin by (rule Q)
  let ?pre' = "pre @ block Some (Some c) ?a t"
  have len': "length ?pre' = ?a + tsize t" by (simp add: length_block)
  have r2: "rebuildChildren f (?pre' @ blocks pf par (length ?pre') us @ post) c (trefs (length ?pre') us) =
            Some (?pre' @ blocks Some (Some c) (length ?pre') us @ post)"
    using sub by (rule Cons.IH)
  have r2': "rebuildChildren f (pre @ block Some (Some c) ?a t @ ?rest) c (trefs (?a + tsize t) us) =
            Some (pre @ block Some (Some c) ?a t @ blocks Some (Some c) (?a + tsize t) us @ post)"
    using r2 unfolding len' by simp
  have "rebuildChildren f ?H c (?a # trefs (?a + tsize t) us) =
        Some (pre @ block Some (Some c) ?a t @ blocks Some (Some c) (?a + tsize t) us @ post)"
    using lt upd r1 r2' by (simp del: append_assoc length_append)
  then show ?case by simp
qed

lemma rebuildParentReferences_block:
  "theight t \<le> f \<Longrightarrow>
   rebuildParentReferences f (pre @ block pf par (length pre) t @ post) (length pre) =
     Some (pre @ block Some par (length pre) t @ post)"
proof (induction t arbitrary: f pf par pre post)
  case (MTree n ts)
  from MTree.prems obtain f' where f: "f = Suc f'" and hs: "foldr max (map theight ts) 0 \<le> f'"
    by (cases f) auto
  let ?c = "length pre"
  let ?root = "n\<lparr>children := trefs (Suc ?c) ts, parent := par\<rparr>"
  let ?H = "pre @ block pf par ?c (MTree n ts) @ post"
  have H: "?H = (pre @ [?root]) @ blocks pf (pf ?c) (length (pre @ [?root])) ts @ post" by simp
  have kids: "children (?H ! ?c) = trefs (length (pre @ [?root])) ts" by (simp add: nth_append)
  have lt: "?c < length ?H" by simp
  have Q: "\<And>t pf par pre post. t \<in> set ts \<Longrightarrow>
      rebuildParentReferences f' (pre @ block pf par (length pre) t @ post) (length pre) =
        Some (pre @ block Some par (length pre) t @ post)"
  proof -
    fix t pf par pre post assume t: "t \<in> set ts"
    have "theight t \<le> f'" using theight_child[OF t] hs by simp
    then show "rebuildParentReferences f' (pre @ block pf par (length pre) t @ post) (length pre) =
        Some (pre @ block Some par (length pre) t @ post)"
      using t by (intro MTree.IH)
  qed
  have "rebuildChildren f' ((pre @ [?root]) @ blocks pf (pf ?c) (length (pre @ [?root])) ts @ post) ?c
          (trefs (length (pre @ [?root])) ts) =
        Some ((pre @ [?root]) @ blocks Some (Some ?c) (length (pre @ [?root])) ts @ post)"
    using Q subset_refl by (rule rebuildChildren_from_rebuild)
  then have "rebuildChildren f' ?H ?c (children (?H ! ?c)) =
        Some (pre @ block Some par ?c (MTree n ts) @ post)"
    unfolding kids unfolding H by simp
  then show ?case unfolding f using lt by (simp del: block.simps)
qed

subsection \<open>What a block holds\<close>

lemma trefs_bounds:
  "r \<in> set (trefs a ts) \<Longrightarrow> a \<le> r \<and> r < a + sum_list (map tsize ts)"
proof (induction ts arbitrary: a)
  case Nil
  then show ?case by simp
next
  case (Cons t ts)
  have pos: "0 < tsize t" by (cases t) simp
  from Cons.prems have "r = a \<or> r \<in> set (trefs (a + tsize t) ts)" by simp
  then show ?case
  proof
    assume "r = a"
    then show ?thesis using pos by simp
  next
    assume "r \<in> set (trefs (a + tsize t) ts)"
    from Cons.IH[OF this] show ?thesis by simp
  qed
qed

text \<open>A cell of the block of \<open>t\<close> at \<open>c\<close> holds the content of a node of \<open>t\<close>; its children are
  cells of the block after it, and each of them has the parent that \<open>pf\<close> gives.\<close>

definition cell_ok :: "(nat \<Rightarrow> nat option) \<Rightarrow> MindMapNode list \<Rightarrow> nat \<Rightarrow> nat \<Rightarrow> bool" where
  "cell_ok pf H hi x \<longleftrightarrow> (\<forall>ch\<in>set (children (H ! x)). x < ch \<and> ch < hi \<and> parent (H ! ch) = pf x)"

lemma block_cells:
  "theight t \<le> g \<Longrightarrow>
   (\<exists>t'. tree_of g (pre @ block pf par (length pre) t @ post) (length pre) = Some t' \<and>
         content_of t' = content_of t) \<and>
   parent ((pre @ block pf par (length pre) t @ post) ! length pre) = par \<and>
   (\<forall>x. length pre \<le> x \<and> x < length pre + tsize t \<longrightarrow>
        cell_ok pf (pre @ block pf par (length pre) t @ post) (length pre + tsize t) x)"
proof (induction t arbitrary: g pf par pre post)
  case (MTree n ts)
  from MTree.prems obtain g' where g: "g = Suc g'" and hs: "foldr max (map theight ts) 0 \<le> g'"
    by (cases g) auto
  let ?c = "length pre"
  let ?root = "n\<lparr>children := trefs (Suc ?c) ts, parent := par\<rparr>"
  let ?H = "pre @ block pf par ?c (MTree n ts) @ post"
  have Hc: "?H ! ?c = ?root" by (simp add: nth_append)
  have lt: "?c < length ?H" by simp
  have inner: "set us \<subseteq> set ts \<Longrightarrow>
      (\<exists>us'. those (map (tree_of g' (pre' @ blocks pf par' (length pre') us @ post')) (trefs (length pre') us)) = Some us' \<and>
             map content_of us' = map content_of us) \<and>
      (\<forall>r\<in>set (trefs (length pre') us). parent ((pre' @ blocks pf par' (length pre') us @ post') ! r) = par') \<and>
      (\<forall>x. length pre' \<le> x \<and> x < length pre' + sum_list (map tsize us) \<longrightarrow>
           cell_ok pf (pre' @ blocks pf par' (length pre') us @ post') (length pre' + sum_list (map tsize us)) x)"
    for us pre' par' post'
  proof (induction us arbitrary: pre' post')
    case Nil
    show ?case by auto
  next
    case (Cons t us)
    let ?a = "length pre'"
    let ?Hi = "pre' @ blocks pf par' ?a (t # us) @ post'"
    let ?post1 = "blocks pf par' (?a + tsize t) us @ post'"
    let ?pre2 = "pre' @ block pf par' ?a t"
    have tin: "t \<in> set ts" and sub: "set us \<subseteq> set ts" using Cons.prems by simp_all
    have ht: "theight t \<le> g'" using theight_child[OF tin] hs by simp
    have e1: "?Hi = pre' @ block pf par' ?a t @ ?post1" by simp
    have len2: "length ?pre2 = ?a + tsize t" by (simp add: length_block)
    have e2: "?Hi = ?pre2 @ blocks pf par' (length ?pre2) us @ post'" unfolding len2 by simp
    note A = MTree.IH[OF tin ht, of pre' pf par' ?post1, folded e1]
    note B = Cons.IH[OF sub, of ?pre2 post', folded e2, unfolded len2]
    from A obtain t' where t': "tree_of g' ?Hi ?a = Some t'" and ct: "content_of t' = content_of t" by blast
    from B obtain us' where us': "those (map (tree_of g' ?Hi) (trefs (?a + tsize t) us)) = Some us'"
      and cus: "map content_of us' = map content_of us" by blast
    have g1: "\<exists>r'. those (map (tree_of g' ?Hi) (trefs ?a (t # us))) = Some r' \<and>
                  map content_of r' = map content_of (t # us)"
      using t' us' ct cus by simp
    have g2: "\<forall>r\<in>set (trefs ?a (t # us)). parent (?Hi ! r) = par'"
      using A B by simp
    have g3: "\<forall>x. ?a \<le> x \<and> x < ?a + sum_list (map tsize (t # us)) \<longrightarrow>
           cell_ok pf ?Hi (?a + sum_list (map tsize (t # us))) x"
    proof (intro allI impI)
      fix x assume x: "?a \<le> x \<and> x < ?a + sum_list (map tsize (t # us))"
      show "cell_ok pf ?Hi (?a + sum_list (map tsize (t # us))) x"
      proof (cases "x < ?a + tsize t")
        case True
        then have "cell_ok pf ?Hi (?a + tsize t) x" using A x by blast
        then show ?thesis unfolding cell_ok_def by auto
      next
        case False
        then have "cell_ok pf ?Hi (?a + tsize t + sum_list (map tsize us)) x" using B x by simp
        then show ?thesis unfolding cell_ok_def by (simp add: add.assoc)
      qed
    qed
    show ?case using g1 g2 g3 by blast
  qed
  have e: "?H = (pre @ [?root]) @ blocks pf (pf ?c) (length (pre @ [?root])) ts @ post" by simp
  note I = inner[OF subset_refl, of "pre @ [?root]" "pf ?c" post, folded e]
  from I obtain ts' where ts': "those (map (tree_of g' ?H) (trefs (Suc ?c) ts)) = Some ts'"
    and cts: "map content_of ts' = map content_of ts" by auto
  have tr: "tree_of (Suc g') ?H ?c = Some (MTree ?root ts')"
    using lt ts' unfolding tree_of.simps Hc by simp
  have c1: "\<exists>t'. tree_of g ?H ?c = Some t' \<and> content_of t' = content_of (MTree n ts)"
    unfolding g using tr cts by simp
  have c2: "parent (?H ! ?c) = par" unfolding Hc by simp
  have kidsp: "\<forall>r\<in>set (trefs (Suc ?c) ts). parent (?H ! r) = pf ?c" using I by simp
  have c3: "\<forall>x. ?c \<le> x \<and> x < ?c + tsize (MTree n ts) \<longrightarrow> cell_ok pf ?H (?c + tsize (MTree n ts)) x"
  proof (intro allI impI)
    fix x assume x: "?c \<le> x \<and> x < ?c + tsize (MTree n ts)"
    show "cell_ok pf ?H (?c + tsize (MTree n ts)) x"
    proof (cases "x = ?c")
      case True
      show ?thesis unfolding True cell_ok_def Hc
      proof
        fix ch assume "ch \<in> set (children ?root)"
        then have ch: "ch \<in> set (trefs (Suc ?c) ts)" by simp
        from trefs_bounds[OF ch] kidsp ch
        show "?c < ch \<and> ch < ?c + tsize (MTree n ts) \<and> parent (?H ! ch) = pf ?c" by simp
      qed
    next
      case False
      then have "Suc ?c \<le> x \<and> x < Suc ?c + sum_list (map tsize ts)" using x by simp
      then have "cell_ok pf ?H (Suc ?c + sum_list (map tsize ts)) x" using I by simp
      then show ?thesis by simp
    qed
  qed
  show ?case using c1 c2 c3 by blast
qed

subsection \<open>Snapshots\<close>

lemma blocks_trees:
  "\<forall>t\<in>set ts. theight t \<le> g \<Longrightarrow>
   \<exists>ts'. those (map (tree_of g (pre @ blocks pf par (length pre) ts @ post)) (trefs (length pre) ts)) = Some ts' \<and>
         map content_of ts' = map content_of ts"
proof (induction ts arbitrary: pre)
  case Nil
  then show ?case by simp
next
  case (Cons t ts)
  let ?a = "length pre"
  let ?H = "pre @ blocks pf par ?a (t # ts) @ post"
  let ?pre2 = "pre @ block pf par ?a t"
  have ht: "theight t \<le> g" and hts: "\<forall>t\<in>set ts. theight t \<le> g" using Cons.prems by simp_all
  have len2: "length ?pre2 = ?a + tsize t" by (simp add: length_block)
  have e1: "?H = pre @ block pf par ?a t @ (blocks pf par (?a + tsize t) ts @ post)" by simp
  have e2: "?H = ?pre2 @ blocks pf par (length ?pre2) ts @ post" unfolding len2 by simp
  from block_cells[OF ht, of pre pf par "blocks pf par (?a + tsize t) ts @ post", folded e1]
  obtain t' where t': "tree_of g ?H ?a = Some t'" and ct: "content_of t' = content_of t" by blast
  from Cons.IH[OF hts, of ?pre2, folded e2, unfolded len2]
  obtain ts' where ts': "those (map (tree_of g ?H) (trefs (?a + tsize t) ts)) = Some ts'"
    and cts: "map content_of ts' = map content_of ts" by blast
  show ?case using t' ts' ct cts by simp
qed

lemma those_heights:
  "those (map (tree_of f h) rs) = Some ts \<Longrightarrow> \<forall>t\<in>set ts. theight t \<le> f"
proof (induction rs arbitrary: ts)
  case Nil
  then show ?case by simp
next
  case (Cons r rs)
  from Cons.prems obtain y ys where y: "tree_of f h r = Some y"
    and ys: "those (map (tree_of f h) rs) = Some ys" and e: "ts = y # ys"
    by (auto split: option.splits)
  show ?case using tree_of_height[OF y] Cons.IH[OF ys] e by simp
qed

text \<open>The store and the snapshot that \<open>takeSnapshot\<close> returns: the clone of the root tree with its
  parents rebuilt, then the clones of the entries of \<open>allNodes\<close>, whose parents stay \<open>null\<close>.\<close>

definition snapshot_cells :: "nat \<Rightarrow> mtree option \<Rightarrow> mtree list \<Rightarrow> MindMapNode list" where
  "snapshot_cells a rt ts =
     (case rt of
        None \<Rightarrow> blocks (\<lambda>_. None) None a ts
      | Some t \<Rightarrow> block Some None a t @ blocks (\<lambda>_. None) None (a + tsize t) ts)"

definition snapshot_data :: "nat \<Rightarrow> mtree option \<Rightarrow> mtree list \<Rightarrow> nat \<Rightarrow> MindMapData" where
  "snapshot_data a rt ts m =
     (case rt of
        None \<Rightarrow> \<lparr>rootNode = None, allNodes_refs = trefs a ts, maxLevel_data = m\<rparr>
      | Some t \<Rightarrow> \<lparr>rootNode = Some a, allNodes_refs = trefs (a + tsize t) ts, maxLevel_data = m\<rparr>)"

text \<open>The trees of a state: of its root, if it has one, and of the entries of \<open>allNodes\<close>.\<close>

definition trees_of :: "nat \<Rightarrow> MindMapNode list \<Rightarrow> MindMapData \<Rightarrow> (mtree option \<times> mtree list) option" where
  "trees_of f h d =
     (case those (map (tree_of f h) (allNodes_refs d)) of
        None \<Rightarrow> None
      | Some ts \<Rightarrow>
          (case rootNode d of
             None \<Rightarrow> Some (None, ts)
           | Some r \<Rightarrow> map_option (\<lambda>t. (Some t, ts)) (tree_of f h r)))"

lemma trees_of_extend: "trees_of f h d = Some p \<Longrightarrow> trees_of f (h @ e) d = Some p"
proof -
  assume a: "trees_of f h d = Some p"
  from a obtain ts where ts: "those (map (tree_of f h) (allNodes_refs d)) = Some ts"
    unfolding trees_of_def by (auto split: option.splits)
  have ts': "those (map (tree_of f (h @ e)) (allNodes_refs d)) = Some ts"
    using ts by (rule those_tree_of_extend)
  show ?thesis
  proof (cases "rootNode d")
    case None
    then show ?thesis using a ts ts' unfolding trees_of_def by simp
  next
    case (Some r)
    from a ts Some obtain t where t: "tree_of f h r = Some t" and p: "p = (Some t, ts)"
      unfolding trees_of_def by auto
    have "tree_of f (h @ e) r = Some t" using t by (rule tree_of_extend)
    then show ?thesis using ts' Some p unfolding trees_of_def by simp
  qed
qed

lemma takeSnapshot_cells:
  assumes "trees_of f h d = Some (rt, ts)"
  shows "takeSnapshot f h d =
           Some (h @ snapshot_cells (length h) rt ts, snapshot_data (length h) rt ts (maxLevel_data d))"
proof -
  from assms have ts: "those (map (tree_of f h) (allNodes_refs d)) = Some ts"
    unfolding trees_of_def by (auto split: option.splits)
  show ?thesis
  proof (cases "rootNode d")
    case None
    then have rt: "rt = None" using assms ts unfolding trees_of_def by simp
    have "cloneAll f h (allNodes_refs d) =
            Some (h @ blocks (\<lambda>_. None) None (length h) ts, trefs (length h) ts)"
      using ts by (rule cloneAll_blocks)
    then show ?thesis unfolding takeSnapshot_def snapshot_cells_def snapshot_data_def rt
      using None by simp
  next
    case (Some r)
    from assms ts Some obtain t where t: "tree_of f h r = Some t" and rt: "rt = Some t"
      unfolding trees_of_def by auto
    let ?h1 = "h @ block (\<lambda>_. None) None (length h) t"
    have c1: "deepCloneNode f h r = Some (?h1, length h)" using t by (rule deepCloneNode_block)
    have "those (map (tree_of f ?h1) (allNodes_refs d)) = Some ts"
      using ts by (rule those_tree_of_extend)
    then have "cloneAll f ?h1 (allNodes_refs d) =
          Some (?h1 @ blocks (\<lambda>_. None) None (length ?h1) ts, trefs (length ?h1) ts)"
      by (rule cloneAll_blocks)
    then have c2: "cloneAll f ?h1 (allNodes_refs d) =
          Some (h @ block (\<lambda>_. None) None (length h) t @ blocks (\<lambda>_. None) None (length h + tsize t) ts,
                trefs (length h + tsize t) ts)"
      by (simp add: length_block)
    have c3: "rebuildParentReferences f
          (h @ block (\<lambda>_. None) None (length h) t @ blocks (\<lambda>_. None) None (length h + tsize t) ts) (length h) =
          Some (h @ block Some None (length h) t @ blocks (\<lambda>_. None) None (length h + tsize t) ts)"
      using tree_of_height[OF t] by (rule rebuildParentReferences_block)
    show ?thesis unfolding takeSnapshot_def snapshot_cells_def snapshot_data_def rt
      using Some c1 c2 c3 by simp
  qed
qed

lemma snapshot_trees:
  assumes "trees_of f h d = Some (rt, ts)"
  shows "\<exists>rt' ts'. trees_of f (h @ snapshot_cells (length h) rt ts @ e)
                      (snapshot_data (length h) rt ts m) = Some (rt', ts') \<and>
                    map_option content_of rt' = map_option content_of rt \<and>
                    map content_of ts' = map content_of ts"
proof -
  from assms have ts: "those (map (tree_of f h) (allNodes_refs d)) = Some ts"
    unfolding trees_of_def by (auto split: option.splits)
  have hts: "\<forall>t\<in>set ts. theight t \<le> f" using ts by (rule those_heights)
  show ?thesis
  proof (cases rt)
    case None
    from blocks_trees[OF hts, of h "\<lambda>_. None" None e]
    obtain ts' where "those (map (tree_of f (h @ blocks (\<lambda>_. None) None (length h) ts @ e))
        (trefs (length h) ts)) = Some ts'" and "map content_of ts' = map content_of ts" by blast
    then show ?thesis unfolding None snapshot_cells_def snapshot_data_def trees_of_def by simp
  next
    case (Some t)
    from assms ts Some obtain r where t: "tree_of f h r = Some t"
      unfolding trees_of_def by (auto split: option.splits)
    have ht: "theight t \<le> f" using t by (rule tree_of_height)
    let ?H = "h @ block Some None (length h) t @ blocks (\<lambda>_. None) None (length h + tsize t) ts @ e"
    let ?pre2 = "h @ block Some None (length h) t"
    have len2: "length ?pre2 = length h + tsize t" by (simp add: length_block)
    have e2: "?H = ?pre2 @ blocks (\<lambda>_. None) None (length ?pre2) ts @ e" unfolding len2 by simp
    from block_cells[OF ht, of h Some None "blocks (\<lambda>_. None) None (length h + tsize t) ts @ e"]
    obtain t' where t': "tree_of f ?H (length h) = Some t'" and ct: "content_of t' = content_of t"
      by blast
    from blocks_trees[OF hts, of ?pre2 "\<lambda>_. None" None e, folded e2, unfolded len2]
    obtain ts' where ts': "those (map (tree_of f ?H) (trefs (length h + tsize t) ts)) = Some ts'"
      and cts: "map content_of ts' = map content_of ts" by blast
    show ?thesis unfolding Some snapshot_cells_def snapshot_data_def trees_of_def
      using t' ts' ct cts by simp
  qed
qed

subsection \<open>Undoing repeatedly\<close>



lemma trees_of_root:
  "trees_of f h d = Some (rt, ts) \<Longrightarrow> rootNode d = Some c \<Longrightarrow>
   \<exists>t. rt = Some t \<and> tree_of f h c = Some t \<and> those (map (tree_of f h) (allNodes_refs d)) = Some ts"
  unfolding trees_of_def by (auto split: option.splits)



subsection \<open>The undo claims\<close>

definition demo_store :: "MindMapNode list" where
  "demo_store = [(createNode (str ''map'') 0)\<lparr>children := [1, 2]\<rparr>,
                 (createNode (str ''A'') 1)\<lparr>parent := Some 0\<rparr>,
                 (createNode (str ''B'') 1)\<lparr>parent := Some 0\<rparr>]"

definition demo_state :: MindMapData where
  "demo_state = \<lparr>rootNode = Some 0, allNodes_refs = [0, 1, 2], maxLevel_data = 1\<rparr>"

lemmas undo_defs = demo_store_def demo_state_def createNode_def str_def clearHistory_def
  MAX_STACK_SIZE_def trees_of_def

text \<open>The demonstration store after one \<open>saveSnapshot\<close>, and the same store after the text of
  the live node \<open>A\<close> has been edited.\<close>

definition demo_saved :: "UndoManager \<times> MindMapNode list" where
  "demo_saved = the (saveSnapshot 2 clearHistory demo_store demo_state)"

definition demo_edited :: "MindMapNode list" where
  "demo_edited = (snd demo_saved)[1 := (snd demo_saved ! 1)\<lparr>ntext := str ''A2''\<rparr>]"

lemma demo_saved_eq:
  "demo_saved =
     (\<lparr>undoStack = [\<lparr>rootNode = Some 3, allNodes_refs = [6, 9, 10], maxLevel_data = 1\<rparr>], redoStack = []\<rparr>,
      demo_store @
      [(createNode (str ''map'') 0)\<lparr>children := [4, 5]\<rparr>,
       (createNode (str ''A'') 1)\<lparr>parent := Some 3\<rparr>,
       (createNode (str ''B'') 1)\<lparr>parent := Some 3\<rparr>,
       (createNode (str ''map'') 0)\<lparr>children := [7, 8]\<rparr>,
       createNode (str ''A'') 1,
       createNode (str ''B'') 1,
       createNode (str ''A'') 1,
       createNode (str ''B'') 1])"
  by (simp add: demo_saved_def saveSnapshot_def takeSnapshot_def undo_defs eval_nat_numeral Let_def)



text \<open>
  C6. Let the undo stack be non-empty, the current state's root be a tree \<open>t\<close> of the store (its
  \<open>allNodes\<close> entries trees \<open>ts\<close>), and the snapshot on top of the undo stack be one too (as every
  snapshot that \<open>saveSnapshot\<close>, \<open>undo\<close> or \<open>redo\<close> pushed is). Then \<open>undo\<close> returns that snapshot,
  and \<open>redo\<close>, called with it as the current state, returns a state whose root \<open>c\<close> is a fresh
  cell, not the root \<open>r\<close> the tree had before the undo, and whose tree has the content and the
  shape of \<open>t\<close>: the same fields at every node (texts and levels among them) and the same
  children in the same order. Its parent links are those of a tree: all its cells lie in the
  fresh range \<open>[c, c + tsize t)\<close>, the root's parent is \<open>null\<close> and the parent of every child is
  the cell that lists it. The cells of the store that existed before are unchanged, and the
  two stacks are as long as they were.
\<close>

theorem undo_then_redo_restores:
  assumes "undoStack um \<noteq> []"
    and "rootNode cur = Some r"
    and "tree_of f h r = Some t"
    and "those (map (tree_of f h) (allNodes_refs cur)) = Some ts"
    and "trees_of f h (last (undoStack um)) \<noteq> None"
  shows "\<exists>um1 h1 um2 h2 restored c t' ts'.
      undo f um h cur = Some (um1, h1, Some (last (undoStack um))) \<and>
      redo f um1 h1 (last (undoStack um)) = Some (um2, h2, Some restored) \<and>
      take (length h) h2 = h \<and>
      rootNode restored = Some c \<and> c \<noteq> r \<and> length h \<le> c \<and>
      tree_of f h2 c = Some t' \<and> content_of t' = content_of t \<and>
      c + tsize t \<le> length h2 \<and>
      parent (h2 ! c) = None \<and>
      (\<forall>x. c \<le> x \<and> x < c + tsize t \<longrightarrow>
           (\<forall>ch\<in>set (children (h2 ! x)). x < ch \<and> ch < c + tsize t \<and> parent (h2 ! ch) = Some x)) \<and>
      those (map (tree_of f h2) (allNodes_refs restored)) = Some ts' \<and>
      map content_of ts' = map content_of ts \<and>
      maxLevel_data restored = maxLevel_data cur \<and>
      length (undoStack um2) = length (undoStack um) \<and>
      redoStack um2 = redoStack um"
proof -
  let ?c = "length h"
  define cells where "cells = snapshot_cells ?c (Some t) ts"
  define snap where "snap = snapshot_data ?c (Some t) ts (maxLevel_data cur)"
  define prev where "prev = last (undoStack um)"
  define um1 where "um1 = \<lparr>undoStack = butlast (undoStack um), redoStack = redoStack um @ [snap]\<rparr>"
  define h1 where "h1 = h @ cells"
  have tr: "trees_of f h cur = Some (Some t, ts)"
    unfolding trees_of_def using assms(2-4) by simp
  have take1: "takeSnapshot f h cur = Some (h1, snap)"
    using takeSnapshot_cells[OF tr] unfolding h1_def cells_def snap_def .
  have ne: "length (undoStack um) \<noteq> 0" using assms(1) by simp
  have u: "undo f um h cur = Some (um1, h1, Some prev)"
    unfolding undo_def take1 um1_def prev_def using ne by (simp only: if_False option.case prod.case)
  from assms(5) obtain rt ps where "trees_of f h prev = Some (rt, ps)" unfolding prev_def by auto
  then have trp: "trees_of f h1 prev = Some (rt, ps)" unfolding h1_def by (rule trees_of_extend)
  define cells2 where "cells2 = snapshot_cells (length h1) rt ps"
  define snap2 where "snap2 = snapshot_data (length h1) rt ps (maxLevel_data prev)"
  define h2 where "h2 = h1 @ cells2"
  define um2 where "um2 = \<lparr>undoStack = undoStack um1 @ [snap2], redoStack = butlast (redoStack um1)\<rparr>"
  have take2: "takeSnapshot f h1 prev = Some (h2, snap2)"
    using takeSnapshot_cells[OF trp] unfolding h2_def cells2_def snap2_def .
  have ne1: "length (redoStack um1) \<noteq> 0" unfolding um1_def by simp
  have lastr: "last (redoStack um1) = snap" unfolding um1_def by simp
  have rd: "redo f um1 h1 prev = Some (um2, h2, Some snap)"
    unfolding redo_def take2 um2_def lastr using ne1 by (simp only: if_False option.case prod.case)
  have h2e: "h2 = h @ snapshot_cells ?c (Some t) ts @ cells2"
    unfolding h2_def h1_def cells_def by simp
  from snapshot_trees[OF tr, of cells2 "maxLevel_data cur", folded h2e snap_def]
  obtain rt' ts' where trs: "trees_of f h2 snap = Some (rt', ts')"
    and crt: "map_option content_of rt' = map_option content_of (Some t)"
    and cts: "map content_of ts' = map content_of ts" by blast
  have root: "rootNode snap = Some ?c" and ml: "maxLevel_data snap = maxLevel_data cur"
    unfolding snap_def snapshot_data_def by simp_all
  from trees_of_root[OF trs root] obtain t' where rt': "rt' = Some t'"
    and t': "tree_of f h2 ?c = Some t'"
    and ts': "those (map (tree_of f h2) (allNodes_refs snap)) = Some ts'" by blast
  have ct: "content_of t' = content_of t" using crt unfolding rt' by simp
  have rlt: "r < length h" using assms(3) by (cases f) (simp_all split: if_splits)
  then have neq: "?c \<noteq> r" by simp
  have tk: "take (length h) h2 = h" unfolding h2e by simp
  have l1: "length (undoStack um2) = length (undoStack um)"
    unfolding um2_def um1_def using assms(1) by simp
  have l2: "redoStack um2 = redoStack um" unfolding um2_def um1_def by simp
  have ht: "theight t \<le> f" using assms(3) by (rule tree_of_height)
  have h2b: "h2 = h @ block Some None ?c t @ (blocks (\<lambda>_. None) None (?c + tsize t) ts @ cells2)"
    unfolding h2e by (simp add: snapshot_cells_def)
  note B = block_cells[OF ht, of h Some None "blocks (\<lambda>_. None) None (?c + tsize t) ts @ cells2",
      folded h2b]
  have p0: "parent (h2 ! ?c) = None" using B[THEN conjunct2, THEN conjunct1] .
  have p1: "\<forall>x. ?c \<le> x \<and> x < ?c + tsize t \<longrightarrow>
      (\<forall>ch\<in>set (children (h2 ! x)). x < ch \<and> ch < ?c + tsize t \<and> parent (h2 ! ch) = Some x)"
    using B[THEN conjunct2, THEN conjunct2] unfolding cell_ok_def .
  have len2: "?c + tsize t \<le> length h2" unfolding h2b by (simp add: length_block)
  have "undo f um h cur = Some (um1, h1, Some (last (undoStack um))) \<and>
      redo f um1 h1 (last (undoStack um)) = Some (um2, h2, Some snap) \<and>
      take (length h) h2 = h \<and>
      rootNode snap = Some ?c \<and> ?c \<noteq> r \<and> length h \<le> ?c \<and>
      tree_of f h2 ?c = Some t' \<and> content_of t' = content_of t \<and>
      ?c + tsize t \<le> length h2 \<and>
      parent (h2 ! ?c) = None \<and>
      (\<forall>x. ?c \<le> x \<and> x < ?c + tsize t \<longrightarrow>
           (\<forall>ch\<in>set (children (h2 ! x)). x < ch \<and> ch < ?c + tsize t \<and> parent (h2 ! ch) = Some x)) \<and>
      those (map (tree_of f h2) (allNodes_refs snap)) = Some ts' \<and>
      map content_of ts' = map content_of ts \<and>
      maxLevel_data snap = maxLevel_data cur \<and>
      length (undoStack um2) = length (undoStack um) \<and>
      redoStack um2 = redoStack um"
    by (intro conjI u[unfolded prev_def] rd[unfolded prev_def] tk root neq order_refl t' ct
        len2 p0 p1 ts' cts ml l1 l2)
  then show ?thesis by (intro exI)
qed

theorem undo_then_redo_restores_witness:
  "undoStack (fst demo_saved) \<noteq> [] \<and>
   rootNode demo_state = Some 0 \<and>
   tree_of 2 demo_edited 0 = Some (the (tree_of 2 demo_edited 0)) \<and>
   those (map (tree_of 2 demo_edited) (allNodes_refs demo_state)) =
     Some (the (those (map (tree_of 2 demo_edited) (allNodes_refs demo_state)))) \<and>
   trees_of 2 demo_edited (last (undoStack (fst demo_saved))) \<noteq> None \<and>
   (\<exists>um1 h1 um2 h2 restored c t' ts'.
      undo 2 (fst demo_saved) demo_edited demo_state =
        Some (um1, h1, Some (last (undoStack (fst demo_saved)))) \<and>
      redo 2 um1 h1 (last (undoStack (fst demo_saved))) = Some (um2, h2, Some restored) \<and>
      take (length demo_edited) h2 = demo_edited \<and>
      rootNode restored = Some c \<and> c \<noteq> 0 \<and> length demo_edited \<le> c \<and>
      tree_of 2 h2 c = Some t' \<and> content_of t' = content_of (the (tree_of 2 demo_edited 0)) \<and>
      c + tsize (the (tree_of 2 demo_edited 0)) \<le> length h2 \<and>
      parent (h2 ! c) = None \<and>
      (\<forall>x. c \<le> x \<and> x < c + tsize (the (tree_of 2 demo_edited 0)) \<longrightarrow>
           (\<forall>ch\<in>set (children (h2 ! x)).
               x < ch \<and> ch < c + tsize (the (tree_of 2 demo_edited 0)) \<and> parent (h2 ! ch) = Some x)) \<and>
      those (map (tree_of 2 h2) (allNodes_refs restored)) = Some ts' \<and>
      map content_of ts' =
        map content_of (the (those (map (tree_of 2 demo_edited) (allNodes_refs demo_state)))) \<and>
      maxLevel_data restored = maxLevel_data demo_state \<and>
      length (undoStack um2) = length (undoStack (fst demo_saved)) \<and>
      redoStack um2 = redoStack (fst demo_saved))"
proof -
  have h0: "undoStack (fst demo_saved) \<noteq> []" by (simp add: demo_saved_eq)
  have h1: "rootNode demo_state = Some 0" by (simp add: undo_defs)
  have h2: "tree_of 2 demo_edited 0 = Some (the (tree_of 2 demo_edited 0))"
    by (simp add: demo_edited_def demo_saved_eq undo_defs eval_nat_numeral)
  have h3: "those (map (tree_of 2 demo_edited) (allNodes_refs demo_state)) =
     Some (the (those (map (tree_of 2 demo_edited) (allNodes_refs demo_state))))"
    by (simp add: demo_edited_def demo_saved_eq undo_defs eval_nat_numeral)
  have h5: "trees_of 2 demo_edited (last (undoStack (fst demo_saved))) \<noteq> None"
    by (simp add: demo_edited_def demo_saved_eq undo_defs eval_nat_numeral)
  show ?thesis
    using undo_then_redo_restores[OF h0 h1 h2 h3 h5] h0 h1 h2 h3 h5 by (intro conjI)
qed

end
